theory Spec2Isabelle
  imports Main
begin

section \<open>Python exceptions\<close>

text \<open>
  The exceptions the modelled code raises or carries. \<open>CancelledError\<close> is raised into a
  coroutine whose wait is cancelled; \<open>Other\<close> stands for any further subclass of
  \<open>Exception\<close> (an inference error reported by a worker, an unpickling error, ...), and
  \<open>OtherFalsy\<close> for an instance of an exception class whose \<open>__bool__\<close> or \<open>__len__\<close>
  makes the instance false.
\<close>

datatype key = StrKey string | IntKey int

datatype exn =
    KeyError key
  | StopIteration
  | RuntimeError
  | ValueError
  | TypeError
  | InvalidStateError
  | CancelledError
  | Other string
  | OtherFalsy string

text \<open>The truth value of an exception object, as an \<open>if\<close> statement tests it.\<close>

fun truthy :: "exn \<Rightarrow> bool" where
  "truthy (OtherFalsy name) = False"
| "truthy e = True"

section \<open>The codec registry (mlserver/codecs/base.py)\<close>

text \<open>
  A Python dictionary is a mutable object, and two names may refer to the same one. The
  dictionaries therefore live in a store, and a registry holds their addresses.
  \<open>'c\<close> is the type of codec objects.
\<close>

type_synonym addr = nat
type_synonym 'c codec_dict = "string \<rightharpoonup> 'c"
type_synonym 'c store = "addr \<Rightarrow> 'c codec_dict"

record CodecRegistry =
  input_codecs :: addr
  request_codecs :: addr

text \<open>
  The two default arguments \<open>{}\<close> of \<open>_CodecRegistry.__init__\<close> are evaluated once,
  when the \<open>def\<close> statement runs: they are two dictionary objects at fixed addresses.
\<close>

definition default_input_codecs :: addr where
  "default_input_codecs = 0"

definition default_request_codecs :: addr where
  "default_request_codecs = 1"

text \<open>\<open>_CodecRegistry.__init__\<close>; an argument \<open>None\<close> is an argument left out.\<close>

definition CodecRegistry_init :: "addr option \<Rightarrow> addr option \<Rightarrow> CodecRegistry" where
  "CodecRegistry_init input_arg request_arg =
     \<lparr> input_codecs = (case input_arg of None \<Rightarrow> default_input_codecs | Some a \<Rightarrow> a),
       request_codecs = (case request_arg of None \<Rightarrow> default_request_codecs | Some a \<Rightarrow> a) \<rparr>"

definition CodecRegistry_register_input_codec ::
  "CodecRegistry \<Rightarrow> string \<Rightarrow> 'c \<Rightarrow> 'c store \<Rightarrow> 'c store" where
  "CodecRegistry_register_input_codec self content_type codec \<sigma> =
     \<sigma>(input_codecs self := (\<sigma> (input_codecs self))(content_type \<mapsto> codec))"

definition CodecRegistry_find_input_codec ::
  "CodecRegistry \<Rightarrow> string \<Rightarrow> 'c store \<Rightarrow> exn + 'c" where
  "CodecRegistry_find_input_codec self content_type \<sigma> =
     (case \<sigma> (input_codecs self) content_type of
        None \<Rightarrow> Inl (KeyError (StrKey content_type))
      | Some codec \<Rightarrow> Inr codec)"

definition CodecRegistry_register_request_codec ::
  "CodecRegistry \<Rightarrow> string \<Rightarrow> 'c \<Rightarrow> 'c store \<Rightarrow> 'c store" where
  "CodecRegistry_register_request_codec self content_type codec \<sigma> =
     \<sigma>(request_codecs self := (\<sigma> (request_codecs self))(content_type \<mapsto> codec))"

definition CodecRegistry_find_request_codec ::
  "CodecRegistry \<Rightarrow> string \<Rightarrow> 'c store \<Rightarrow> exn + 'c" where
  "CodecRegistry_find_request_codec self content_type \<sigma> =
     (case \<sigma> (request_codecs self) content_type of
        None \<Rightarrow> Inl (KeyError (StrKey content_type))
      | Some codec \<Rightarrow> Inr codec)"

text \<open>
  The module level: the singleton \<open>_codec_registry = _CodecRegistry()\<close>, its two bound
  \<open>find\<close> methods, and the two decorators, which register an instance \<open>CodecKlass()\<close>
  (here the codec object itself). When the module has just been imported both default
  dictionaries are empty.
\<close>

definition codec_registry :: CodecRegistry where
  "codec_registry = CodecRegistry_init None None"

definition module_store :: "'c store" where
  "module_store = (\<lambda>a. Map.empty)"

definition find_request_codec :: "string \<Rightarrow> 'c store \<Rightarrow> exn + 'c" where
  "find_request_codec = CodecRegistry_find_request_codec codec_registry"

definition find_input_codec :: "string \<Rightarrow> 'c store \<Rightarrow> exn + 'c" where
  "find_input_codec = CodecRegistry_find_input_codec codec_registry"

definition register_request_codec :: "string \<Rightarrow> 'c \<Rightarrow> 'c store \<Rightarrow> 'c store" where
  "register_request_codec content_type codec =
     CodecRegistry_register_request_codec codec_registry content_type codec"

definition register_input_codec :: "string \<Rightarrow> 'c \<Rightarrow> 'c store \<Rightarrow> 'c store" where
  "register_input_codec content_type codec =
     CodecRegistry_register_input_codec codec_registry content_type codec"

text \<open>A history of registrations through the module's decorators, oldest first.\<close>

datatype 'c registration =
    RegisterInput string 'c
  | RegisterRequest string 'c

fun register :: "'c registration \<Rightarrow> 'c store \<Rightarrow> 'c store" where
  "register (RegisterInput content_type codec) \<sigma> = register_input_codec content_type codec \<sigma>"
| "register (RegisterRequest content_type codec) \<sigma> = register_request_codec content_type codec \<sigma>"

fun register_all :: "'c registration list \<Rightarrow> 'c store \<Rightarrow> 'c store" where
  "register_all [] \<sigma> = \<sigma>"
| "register_all (r # rs) \<sigma> = register_all rs (register r \<sigma>)"

fun registers_input :: "string \<Rightarrow> 'c registration \<Rightarrow> bool" where
  "registers_input ct (RegisterInput content_type codec) = (content_type = ct)"
| "registers_input ct (RegisterRequest content_type codec) = False"

fun registers_request :: "string \<Rightarrow> 'c registration \<Rightarrow> bool" where
  "registers_request ct (RegisterInput content_type codec) = False"
| "registers_request ct (RegisterRequest content_type codec) = (content_type = ct)"

text \<open>
  Instances of \<open>_CodecRegistry\<close> are objects with an identity of their own. A heap holds
  the dictionaries and the instances created so far, an instance being known by its
  position; the attributes of an instance are set by \<open>__init__\<close> and never assigned
  again. \<open>_CodecRegistry(...)\<close> creates a new instance, and the methods are called on an
  instance of the heap.
\<close>

record 'c heap =
  dictionaries :: "'c store"
  instances :: "CodecRegistry list"

definition construct :: "addr option \<Rightarrow> addr option \<Rightarrow> 'c heap \<Rightarrow> nat \<times> 'c heap" where
  "construct input_arg request_arg h =
     (length (instances h),
      h\<lparr>instances := instances h @ [CodecRegistry_init input_arg request_arg]\<rparr>)"

definition register_input_codec_on :: "nat \<Rightarrow> string \<Rightarrow> 'c \<Rightarrow> 'c heap \<Rightarrow> 'c heap" where
  "register_input_codec_on i content_type codec h =
     h\<lparr>dictionaries :=
         CodecRegistry_register_input_codec (instances h ! i) content_type codec (dictionaries h)\<rparr>"

definition register_request_codec_on :: "nat \<Rightarrow> string \<Rightarrow> 'c \<Rightarrow> 'c heap \<Rightarrow> 'c heap" where
  "register_request_codec_on i content_type codec h =
     h\<lparr>dictionaries :=
         CodecRegistry_register_request_codec (instances h ! i) content_type codec (dictionaries h)\<rparr>"

definition find_input_codec_on :: "nat \<Rightarrow> string \<Rightarrow> 'c heap \<Rightarrow> exn + 'c" where
  "find_input_codec_on i content_type h =
     CodecRegistry_find_input_codec (instances h ! i) content_type (dictionaries h)"

definition find_request_codec_on :: "nat \<Rightarrow> string \<Rightarrow> 'c heap \<Rightarrow> exn + 'c" where
  "find_request_codec_on i content_type h =
     CodecRegistry_find_request_codec (instances h ! i) content_type (dictionaries h)"

text \<open>
  What a program does with registries: it creates instances and registers codecs on
  instances that exist (a call on an instance that does not exist is no call).
\<close>

datatype 'c action =
    Construct "addr option" "addr option"
  | RegisterInputOn nat string 'c
  | RegisterRequestOn nat string 'c

fun act :: "'c action \<Rightarrow> 'c heap \<Rightarrow> 'c heap" where
  "act (Construct input_arg request_arg) h = snd (construct input_arg request_arg h)"
| "act (RegisterInputOn i content_type codec) h =
     (if i < length (instances h) then register_input_codec_on i content_type codec h else h)"
| "act (RegisterRequestOn i content_type codec) h =
     (if i < length (instances h) then register_request_codec_on i content_type codec h else h)"

fun acts :: "'c action list \<Rightarrow> 'c heap \<Rightarrow> 'c heap" where
  "acts [] h = h"
| "acts (a # as) h = acts as (act a h)"

text \<open>The heap when the module has been imported: the singleton is its only instance.\<close>

definition module_heap :: "'c heap" where
  "module_heap = \<lparr> dictionaries = module_store, instances = [codec_registry] \<rparr>"

section \<open>Messages, workers and channels\<close>

text \<open>
  Modelled from the spec: the message classes of mlserver/parallel/messages.py are
  imported by the dispatcher, and the dispatcher reads \<open>id\<close> of both and \<open>exception\<close>
  of a response. The spec gives a request a correlation identifier and a payload, and a
  response a correlation identifier and either a success payload or an error, never both.
\<close>

record 'p ModelRequestMessage =
  request_id :: string
  request_payload :: 'p

datatype 'p body = Success 'p | Failure exn

record 'p ModelResponseMessage =
  response_id :: string
  response_body :: "'p body"

text \<open>\<open>response.exception\<close>: \<open>None\<close> (falsy) on a success, the carried error otherwise.\<close>

definition exception :: "'p ModelResponseMessage \<Rightarrow> exn option" where
  "exception response = (case response_body response of Success v \<Rightarrow> None | Failure e \<Rightarrow> Some e)"

text \<open>
  Modelled from the spec: the class \<open>Worker\<close> of mlserver/parallel/worker.py. A worker
  owns an inbound request channel \<open>_requests\<close>; \<open>send_request\<close> appends to it and
  \<open>qsize\<close> is its depth.
\<close>

record 'p Worker =
  requests :: "'p ModelRequestMessage list"

definition send_request :: "'p Worker \<Rightarrow> 'p ModelRequestMessage \<Rightarrow> 'p Worker" where
  "send_request worker request_message =
     worker\<lparr>requests := requests worker @ [request_message]\<rparr>"

definition qsize :: "'p Worker \<Rightarrow> nat" where
  "qsize worker = length (requests worker)"

text \<open>
  The shared response channel, a \<open>multiprocessing.Queue\<close>: what has been put and not yet
  got, oldest first, and whether this process has closed its handle. After \<open>close()\<close>
  both \<open>put\<close> and \<open>get\<close> of this process raise \<open>ValueError\<close>; the workers are other
  processes and keep their own handles. \<open>END_OF_QUEUE\<close> is the sentinel of
  mlserver/parallel/utils.py, distinct from every response.
\<close>

datatype 'p item = END_OF_QUEUE | Message "'p ModelResponseMessage"

record 'p Queue =
  items :: "'p item list"
  is_closed :: bool

text \<open>
  \<open>itertools.cycle\<close>, as the library documents it: the elements of the iterable are
  yielded and saved one by one; once the iterable is exhausted the saved elements are
  replayed, pass after pass. \<open>None\<close> is \<open>StopIteration\<close> (nothing was saved).
\<close>

record 'a cycle =
  source :: "'a list"
  saved :: "'a list"
  replay :: "'a list"

definition cycle_init :: "'a list \<Rightarrow> 'a cycle" where
  "cycle_init iterable = \<lparr> source = iterable, saved = [], replay = [] \<rparr>"

definition cycle_next :: "'a cycle \<Rightarrow> ('a \<times> 'a cycle) option" where
  "cycle_next it =
     (case source it of
        x # xs \<Rightarrow> Some (x, it\<lparr>source := xs, saved := saved it @ [x]\<rparr>)
      | [] \<Rightarrow>
         (case replay it of
            y # ys \<Rightarrow> Some (y, it\<lparr>replay := ys\<rparr>)
          | [] \<Rightarrow>
             (case saved it of
                [] \<Rightarrow> None
              | z # zs \<Rightarrow> Some (z, it\<lparr>replay := zs\<rparr>))))"

section \<open>Futures, tasks and coroutine frames\<close>

text \<open>
  An \<open>asyncio.Future\<close> belongs to an event loop (a number) and is pending, cancelled or
  finished with a result or with an exception. Futures are objects: they live in a list
  indexed by address, and \<open>loop.create_future()\<close> appends.
\<close>

datatype 'p future_state =
    Pending
  | Cancelled
  | FinishedResult "'p ModelResponseMessage"
  | FinishedException exn

record 'p future =
  fut_loop :: nat
  fut_state :: "'p future_state"

text \<open>
  The task that runs \<open>_process_responses\<close>: running (suspended in the read of the
  channel), done with its done-callback still to run, or done with the callback run.
\<close>

datatype task_result = Returned | TaskCancelled | Crashed exn

datatype task = Running | Done task_result | Reaped task_result

text \<open>What \<open>call_soon_threadsafe\<close> schedules on the loop of a future.\<close>

datatype 'p callback =
    Set_result addr "'p ModelResponseMessage"
  | Set_exception addr exn

text \<open>
  A call of \<open>dispatch\<close> suspended in \<open>_wait_response\<close>: the frame holds its \<open>internal_id\<close> and
  its \<open>async_response\<close>. \<open>must_cancel\<close> is the flag of the calling task, set when it is
  cancelled while its future is already done.
\<close>

datatype 'p call_status =
    Waiting
  | CallReturned "'p ModelResponseMessage"
  | CallRaised exn

record 'p call =
  call_internal_id :: string
  call_async_response :: addr
  must_cancel :: bool
  status :: "'p call_status"

section \<open>The dispatcher (mlserver/parallel/dispatcher.py)\<close>

text \<open>
  The first seven fields are the attributes of \<open>Dispatcher\<close>
  (\<open>executor_shutdown\<close> is the state of \<open>_executor\<close>). The others are the objects and
  the outputs the methods touch: the futures, the tasks, the callbacks scheduled with
  \<open>call_soon_threadsafe\<close> and not yet run (with the loop of each), the suspended calls,
  the observations of the two histograms, and the log.
\<close>

record 'p Dispatcher =
  responses :: "'p Queue"
  workers :: "(int \<times> 'p Worker) list"
  workers_round_robin :: "int cycle"
  active :: bool
  process_responses_task :: "addr option"
  executor_shutdown :: bool
  async_responses :: "string \<rightharpoonup> addr"
  futures :: "'p future list"
  tasks :: "task list"
  scheduled :: "(nat \<times> 'p callback) list"
  calls :: "'p call list"
  queue_request_count :: "(int \<times> nat) list"
  process_request_count :: "nat list"
  logger :: "string list"

text \<open>A method returns its value or raises, and leaves a state behind in both cases.\<close>

type_synonym ('a, 'p) outcome = "(exn + 'a) \<times> 'p Dispatcher"

text \<open>
  \<open>__init__\<close>. The dictionary of workers is an association list in insertion order,
  which is the order of \<open>keys()\<close>.
\<close>

definition Dispatcher_init :: "(int \<times> 'p Worker) list \<Rightarrow> 'p Queue \<Rightarrow> 'p Dispatcher" where
  "Dispatcher_init workers_arg responses_arg =
     \<lparr> responses = responses_arg,
       workers = workers_arg,
       workers_round_robin = cycle_init (map fst workers_arg),
       active = False,
       process_responses_task = None,
       executor_shutdown = False,
       async_responses = Map.empty,
       futures = [],
       tasks = [],
       scheduled = [],
       calls = [],
       queue_request_count = [],
       process_request_count = [],
       logger = [] \<rparr>"

text \<open>
  \<open>start\<close>. Modelled from the spec: \<open>schedule_with_callback\<close> of mlserver/utils.py
  creates the task of the loop and attaches \<open>_process_responses_cb\<close> as its done-callback.
\<close>

definition start :: "'p Dispatcher \<Rightarrow> 'p Dispatcher" where
  "start s =
     s\<lparr>active := True,
       tasks := tasks s @ [Running],
       process_responses_task := Some (length (tasks s))\<rparr>"

definition process_responses_cb :: "task_result \<Rightarrow> 'p Dispatcher \<Rightarrow> 'p Dispatcher" where
  "process_responses_cb process_responses s =
     (case process_responses of
        TaskCancelled \<Rightarrow> s
      | Crashed e \<Rightarrow>
          start (s\<lparr>logger := logger s @
                   [''Response processing loop crashed. Restarting the loop...'']\<rparr>)
      | Returned \<Rightarrow> s)"

text \<open>
  \<open>_process_response\<close>. The test \<open>if response.exception:\<close> is a test of the truth value:
  it fails for \<open>None\<close> and for an exception object that is false, and the response then
  goes to \<open>set_result\<close>.
\<close>

definition process_response :: "'p ModelResponseMessage \<Rightarrow> 'p Dispatcher \<Rightarrow> (unit, 'p) outcome" where
  "process_response response s =
     (let internal_id = response_id response in
      case async_responses s internal_id of
        None \<Rightarrow> (Inl (KeyError (StrKey internal_id)), s)
      | Some async_response \<Rightarrow>
          (let response_loop = fut_loop (futures s ! async_response) in
           case exception response of
             Some e \<Rightarrow>
               if truthy e
               then (Inr (), s\<lparr>scheduled := scheduled s @
                                 [(response_loop, Set_exception async_response e)]\<rparr>)
               else (Inr (), s\<lparr>scheduled := scheduled s @
                                 [(response_loop, Set_result async_response response)]\<rparr>)
           | None \<Rightarrow>
               (Inr (), s\<lparr>scheduled := scheduled s @
                            [(response_loop, Set_result async_response response)]\<rparr>)))"

text \<open>
  One turn of the \<open>while\<close> loop of \<open>_process_responses\<close>, run by task \<open>t\<close>: from the test
  of \<open>_active\<close> to the next suspension in the read. \<open>run_in_executor\<close> raises
  \<open>RuntimeError\<close> once the executor is shut down, \<open>get\<close> raises \<open>ValueError\<close> on a closed
  channel and blocks on an empty one (the task stays suspended).
\<close>

definition finish :: "addr \<Rightarrow> task_result \<Rightarrow> 'p Dispatcher \<Rightarrow> 'p Dispatcher" where
  "finish t res s = s\<lparr>tasks := (tasks s)[t := Done res]\<rparr>"

definition process_responses :: "addr \<Rightarrow> 'p Dispatcher \<Rightarrow> 'p Dispatcher" where
  "process_responses t s =
     (if \<not> (t < length (tasks s) \<and> tasks s ! t = Running) then s
      else if \<not> active s then finish t Returned s
      else if executor_shutdown s then finish t (Crashed RuntimeError) s
      else if is_closed (responses s) then finish t (Crashed ValueError) s
      else
        (case items (responses s) of
           [] \<Rightarrow> s
         | response # rest \<Rightarrow>
             (let s1 = s\<lparr>responses := (responses s)\<lparr>items := rest\<rparr>\<rparr> in
              case response of
                END_OF_QUEUE \<Rightarrow> finish t Returned s1
              | Message r \<Rightarrow>
                  (case process_response r s1 of
                     (Inl e, s2) \<Rightarrow> finish t (Crashed e) s2
                   | (Inr u, s2) \<Rightarrow> s2))))"

text \<open>The done-callback of task \<open>t\<close> runs once, after the task is done.\<close>

definition task_done :: "addr \<Rightarrow> 'p Dispatcher \<Rightarrow> 'p Dispatcher" where
  "task_done t s =
     (if t < length (tasks s) then
        (case tasks s ! t of
           Done res \<Rightarrow> process_responses_cb res (s\<lparr>tasks := (tasks s)[t := Reaped res]\<rparr>)
         | Running \<Rightarrow> s
         | Reaped res \<Rightarrow> s)
      else s)"

definition get_worker :: "'p Dispatcher \<Rightarrow> ('p Worker \<times> int, 'p) outcome" where
  "get_worker s =
     (case cycle_next (workers_round_robin s) of
        None \<Rightarrow> (Inl StopIteration, s)
      | Some (worker_pid, it) \<Rightarrow>
          (let s1 = s\<lparr>workers_round_robin := it\<rparr> in
           case map_of (workers s1) worker_pid of
             None \<Rightarrow> (Inl (KeyError (IntKey worker_pid)), s1)
           | Some worker \<Rightarrow> (Inr (worker, worker_pid), s1)))"

definition workers_queue_monitor :: "'p Worker \<Rightarrow> int \<Rightarrow> 'p Dispatcher \<Rightarrow> 'p Dispatcher" where
  "workers_queue_monitor worker worker_pid s =
     (let queue_size = qsize worker in
      s\<lparr>queue_request_count := queue_request_count s @ [(worker_pid, queue_size)]\<rparr>)"

text \<open>\<open>n_tasks\<close> is \<open>len(asyncio.all_tasks(loop))\<close>, a reading of the caller's loop.\<close>

definition workers_processes_monitor :: "nat \<Rightarrow> 'p Dispatcher \<Rightarrow> 'p Dispatcher" where
  "workers_processes_monitor n_tasks s =
     s\<lparr>process_request_count := process_request_count s @ [n_tasks]\<rparr>"

text \<open>
  \<open>worker.send_request(request_message)\<close> changes the worker object, which the
  dictionary holds under \<open>worker_pid\<close>.
\<close>

definition worker_send_request ::
  "int \<Rightarrow> 'p ModelRequestMessage \<Rightarrow> 'p Dispatcher \<Rightarrow> 'p Dispatcher" where
  "worker_send_request worker_pid request_message s =
     s\<lparr>workers := map (\<lambda>(pid, w). if pid = worker_pid
                                   then (pid, send_request w request_message) else (pid, w))
                      (workers s)\<rparr>"

text \<open>
  \<open>_wait_response\<close> up to its \<open>await\<close>: the frame of the call is created, suspended on
  the future found in the table. The value is the index of the frame.
\<close>

definition wait_response_begin :: "string \<Rightarrow> 'p Dispatcher \<Rightarrow> (addr, 'p) outcome" where
  "wait_response_begin internal_id_arg s =
     (case async_responses s internal_id_arg of
        None \<Rightarrow> (Inl (KeyError (StrKey internal_id_arg)), s)
      | Some fut \<Rightarrow>
          (Inr (length (calls s)),
           s\<lparr>calls := calls s @
                [\<lparr> call_internal_id = internal_id_arg, call_async_response = fut,
                   must_cancel = False, status = Waiting \<rparr>]\<rparr>))"

text \<open>
  \<open>dispatch\<close> in the order of its statements. Lines 91 to 93 select the worker, observe
  its queue depth and submit the request; lines 94 to 101 observe the number of tasks,
  create the future on the caller's loop, register it and enter \<open>_wait_response\<close>.
  Nothing suspends before the \<open>await\<close> of \<open>_wait_response\<close>, so the whole of it is one
  uninterrupted step of the caller's loop. A \<open>StopIteration\<close> that leaves \<open>_get_worker\<close>
  surfaces from the coroutine as \<open>RuntimeError\<close>.
\<close>

definition dispatch_submit ::
  "'p ModelRequestMessage \<Rightarrow> 'p Dispatcher \<Rightarrow> (unit, 'p) outcome" where
  "dispatch_submit request_message s =
     (case get_worker s of
        (Inl e, s1) \<Rightarrow> (Inl (if e = StopIteration then RuntimeError else e), s1)
      | (Inr (worker, wpid), s1) \<Rightarrow>
          (let s2 = workers_queue_monitor worker wpid s1;
               s3 = worker_send_request wpid request_message s2
           in (Inr (), s3)))"

definition dispatch_register ::
  "nat \<Rightarrow> nat \<Rightarrow> 'p ModelRequestMessage \<Rightarrow> 'p Dispatcher \<Rightarrow> (addr, 'p) outcome" where
  "dispatch_register loop n_tasks request_message s =
     (let s1 = workers_processes_monitor n_tasks s;
          fut = length (futures s1);
          s2 = s1\<lparr>futures := futures s1 @ [\<lparr> fut_loop = loop, fut_state = Pending \<rparr>]\<rparr>;
          internal_id = request_id request_message;
          s3 = s2\<lparr>async_responses := (async_responses s2)(internal_id \<mapsto> fut)\<rparr>
      in wait_response_begin internal_id s3)"

definition dispatch ::
  "nat \<Rightarrow> nat \<Rightarrow> 'p ModelRequestMessage \<Rightarrow> 'p Dispatcher \<Rightarrow> (addr, 'p) outcome" where
  "dispatch loop n_tasks request_message s =
     (case dispatch_submit request_message s of
        (Inl e, s1) \<Rightarrow> (Inl e, s1)
      | (Inr u, s1) \<Rightarrow> dispatch_register loop n_tasks request_message s1)"

text \<open>
  \<open>_wait_response\<close> from its \<open>await\<close> on, for the call with frame \<open>c\<close>. While the future
  is pending and the task is not cancelled the call stays suspended. Otherwise the
  \<open>await\<close> yields the result or raises, and the \<open>finally\<close> clause deletes the entry of
  \<open>internal_id\<close>; a \<open>KeyError\<close> of that \<open>del\<close> replaces the outcome.
\<close>

definition wait_response_finally ::
  "addr \<Rightarrow> 'p call_status \<Rightarrow> 'p Dispatcher \<Rightarrow> 'p Dispatcher" where
  "wait_response_finally c result s =
     (let key = call_internal_id (calls s ! c) in
      case async_responses s key of
        None \<Rightarrow> s\<lparr>calls := (calls s)[c := (calls s ! c)\<lparr>status := CallRaised (KeyError (StrKey key))\<rparr>]\<rparr>
      | Some fut \<Rightarrow>
          s\<lparr>async_responses := (async_responses s)(key := None),
            calls := (calls s)[c := (calls s ! c)\<lparr>status := result\<rparr>]\<rparr>)"

definition wait_response_resume :: "addr \<Rightarrow> 'p Dispatcher \<Rightarrow> 'p Dispatcher" where
  "wait_response_resume c s =
     (if \<not> (c < length (calls s) \<and> status (calls s ! c) = Waiting) then s
      else
        (case fut_state (futures s ! call_async_response (calls s ! c)) of
           Pending \<Rightarrow> s
         | Cancelled \<Rightarrow> wait_response_finally c (CallRaised CancelledError) s
         | FinishedResult inference_response \<Rightarrow>
             if must_cancel (calls s ! c)
             then wait_response_finally c (CallRaised CancelledError) s
             else wait_response_finally c (CallReturned inference_response) s
         | FinishedException e \<Rightarrow>
             if must_cancel (calls s ! c)
             then wait_response_finally c (CallRaised CancelledError) s
             else wait_response_finally c (CallRaised e) s))"

text \<open>
  The caller of call \<open>c\<close> is cancelled from outside while the call waits: a pending
  future is cancelled, and with a future that is already done the task is marked.
\<close>

definition cancel_call :: "addr \<Rightarrow> 'p Dispatcher \<Rightarrow> 'p Dispatcher" where
  "cancel_call c s =
     (if \<not> (c < length (calls s) \<and> status (calls s ! c) = Waiting) then s
      else
        (let fut = call_async_response (calls s ! c) in
         if fut_state (futures s ! fut) = Pending
         then s\<lparr>futures := (futures s)[fut := (futures s ! fut)\<lparr>fut_state := Cancelled\<rparr>]\<rparr>
         else s\<lparr>calls := (calls s)[c := (calls s ! c)\<lparr>must_cancel := True\<rparr>]\<rparr>))"

text \<open>
  \<open>Future.set_result\<close> and \<open>Future.set_exception\<close> raise \<open>InvalidStateError\<close> on a
  future that is not pending, and \<open>set_exception\<close> raises \<open>TypeError\<close> for a
  \<open>StopIteration\<close>, which cannot be raised into a future. A scheduled callback that
  raises is reported by its loop and changes nothing.
\<close>

definition set_result :: "addr \<Rightarrow> 'p ModelResponseMessage \<Rightarrow> 'p Dispatcher \<Rightarrow> (unit, 'p) outcome" where
  "set_result fut response s =
     (if fut_state (futures s ! fut) = Pending
      then (Inr (), s\<lparr>futures := (futures s)[fut := (futures s ! fut)\<lparr>fut_state := FinishedResult response\<rparr>]\<rparr>)
      else (Inl InvalidStateError, s))"

definition set_exception :: "addr \<Rightarrow> exn \<Rightarrow> 'p Dispatcher \<Rightarrow> (unit, 'p) outcome" where
  "set_exception fut e s =
     (if fut_state (futures s ! fut) \<noteq> Pending then (Inl InvalidStateError, s)
      else if e = StopIteration then (Inl TypeError, s)
      else (Inr (), s\<lparr>futures := (futures s)[fut := (futures s ! fut)\<lparr>fut_state := FinishedException e\<rparr>]\<rparr>))"

fun run_callback :: "'p callback \<Rightarrow> 'p Dispatcher \<Rightarrow> 'p Dispatcher" where
  "run_callback (Set_result fut response) s = snd (set_result fut response s)"
| "run_callback (Set_exception fut e) s = snd (set_exception fut e s)"

text \<open>Loop \<open>l\<close> runs the oldest callback scheduled on it, if there is one.\<close>

fun take_scheduled :: "nat \<Rightarrow> (nat \<times> 'a) list \<Rightarrow> ('a \<times> (nat \<times> 'a) list) option" where
  "take_scheduled l [] = None"
| "take_scheduled l ((l', cb) # rest) =
     (if l' = l then Some (cb, rest)
      else (case take_scheduled l rest of
              None \<Rightarrow> None
            | Some (cb', rest') \<Rightarrow> Some (cb', (l', cb) # rest')))"

definition run_scheduled :: "nat \<Rightarrow> 'p Dispatcher \<Rightarrow> 'p Dispatcher" where
  "run_scheduled l s =
     (case take_scheduled l (scheduled s) of
        None \<Rightarrow> s
      | Some (cb, rest) \<Rightarrow> run_callback cb (s\<lparr>scheduled := rest\<rparr>))"

text \<open>
  Modelled from the spec: \<open>terminate_queue\<close> and \<open>cancel_task\<close> of
  mlserver/parallel/utils.py. The first pushes the sentinel onto the channel (a \<open>put\<close>,
  which raises \<open>ValueError\<close> on a closed channel). The second cancels the task and waits
  for it to finish; it is idempotent and does not raise when the loop has already
  returned; awaiting a task that crashed raises the exception of the task.
\<close>

definition terminate_queue :: "'p Dispatcher \<Rightarrow> (unit, 'p) outcome" where
  "terminate_queue s =
     (if is_closed (responses s) then (Inl ValueError, s)
      else (Inr (), s\<lparr>responses := (responses s)\<lparr>items := items (responses s) @ [END_OF_QUEUE]\<rparr>\<rparr>))"

definition cancel_task :: "addr \<Rightarrow> 'p Dispatcher \<Rightarrow> (unit, 'p) outcome" where
  "cancel_task t s =
     (case tasks s ! t of
        Running \<Rightarrow> (Inr (), finish t TaskCancelled s)
      | Done res \<Rightarrow> (case res of Crashed e \<Rightarrow> (Inl e, s) | _ \<Rightarrow> (Inr (), s))
      | Reaped res \<Rightarrow> (case res of Crashed e \<Rightarrow> (Inl e, s) | _ \<Rightarrow> (Inr (), s)))"

text \<open>
  \<open>stop\<close>. It suspends in \<open>terminate_queue\<close>, so the rest of it (lines 136 to 139) is a
  step of its own; \<open>close()\<close> and \<open>shutdown()\<close> may be repeated.
\<close>

definition stop_shutdown :: "'p Dispatcher \<Rightarrow> (unit, 'p) outcome" where
  "stop_shutdown s =
     (let s1 = s\<lparr>responses := (responses s)\<lparr>is_closed := True\<rparr>\<rparr>;
          s2 = s1\<lparr>executor_shutdown := True\<rparr>
      in case process_responses_task s2 of
           None \<Rightarrow> (Inr (), s2)
         | Some t \<Rightarrow> cancel_task t s2)"

definition stop :: "'p Dispatcher \<Rightarrow> (unit, 'p) outcome" where
  "stop s =
     (case terminate_queue s of
        (Inl e, s1) \<Rightarrow> (Inl e, s1)
      | (Inr u, s1) \<Rightarrow> stop_shutdown s1)"

section \<open>Interleavings\<close>

text \<open>
  The dispatcher runs under cooperative scheduling: between two suspension points a
  coroutine runs alone on its loop. An execution is therefore a sequence of events, each
  one such uninterrupted step: a call of \<open>start\<close>; a call of \<open>dispatch\<close> from the loop
  of the dispatcher, up to its suspension; a worker putting a response on the shared
  channel; one turn of the response loop; the done-callback of a loop task; a loop
  running its next scheduled callback; a suspended call resuming; the caller of a call
  being cancelled; the two steps of \<open>stop\<close>.

  \<open>dispatch\<close> may also be called from another thread with a loop of its own (the note
  in \<open>_process_response\<close> provides for it). The loop of the dispatcher can then run while
  that call is under way, between the submission (lines 91 to 93) and the registration
  (lines 94 to 101): for such a caller the two halves are events of their own.
\<close>

datatype 'p event =
    Start
  | Dispatch nat nat "'p ModelRequestMessage"
  | DispatchSubmit "'p ModelRequestMessage"
  | DispatchRegister nat nat "'p ModelRequestMessage"
  | Put "'p ModelResponseMessage"
  | LoopTurn addr
  | LoopDone addr
  | RunScheduled nat
  | Resume addr
  | Cancel addr
  | TerminateQueue
  | Shutdown

fun step :: "'p event \<Rightarrow> 'p Dispatcher \<Rightarrow> 'p Dispatcher" where
  "step Start s = start s"
| "step (Dispatch loop n_tasks request_message) s = snd (dispatch loop n_tasks request_message s)"
| "step (DispatchSubmit request_message) s = snd (dispatch_submit request_message s)"
| "step (DispatchRegister loop n_tasks request_message) s =
     snd (dispatch_register loop n_tasks request_message s)"
| "step (Put r) s = s\<lparr>responses := (responses s)\<lparr>items := items (responses s) @ [Message r]\<rparr>\<rparr>"
| "step (LoopTurn t) s = process_responses t s"
| "step (LoopDone t) s = task_done t s"
| "step (RunScheduled l) s = run_scheduled l s"
| "step (Resume c) s = wait_response_resume c s"
| "step (Cancel c) s = cancel_call c s"
| "step TerminateQueue s = snd (terminate_queue s)"
| "step Shutdown s = snd (stop_shutdown s)"

fun run :: "'p event list \<Rightarrow> 'p Dispatcher \<Rightarrow> 'p Dispatcher" where
  "run [] s = s"
| "run (e # es) s = run es (step e s)"

section \<open>Invariants and observations\<close>


definition cycle_at :: "'a list \<Rightarrow> nat \<Rightarrow> 'a cycle" where
  "cycle_at ks k =
     (if k < length ks
      then \<lparr> source = drop k ks, saved = take k ks, replay = [] \<rparr>
      else \<lparr> source = [], saved = ks,
             replay = drop (if k mod length ks = 0 then length ks else k mod length ks) ks \<rparr>)"

fun is_dispatch :: "'p event \<Rightarrow> bool" where
  "is_dispatch (Dispatch loop n_tasks request_message) = True"
| "is_dispatch (DispatchSubmit request_message) = True"
| "is_dispatch e = False"

definition dispatch_count :: "'p event list \<Rightarrow> nat" where
  "dispatch_count es = length (filter is_dispatch es)"

definition targets :: "addr \<Rightarrow> 'p callback \<Rightarrow> bool" where
  "targets fut cb = (case cb of Set_result f r \<Rightarrow> f = fut | Set_exception f e \<Rightarrow> f = fut)"

definition consistent :: "'p Dispatcher \<Rightarrow> bool" where
  "consistent s \<longleftrightarrow>
     (\<forall>c < length (calls s). call_async_response (calls s ! c) < length (futures s))
   \<and> (\<forall>c < length (calls s). \<forall>c' < length (calls s).
        call_async_response (calls s ! c) = call_async_response (calls s ! c') \<longrightarrow> c = c')
   \<and> (\<forall>i f. async_responses s i = Some f \<longrightarrow>
        (\<exists>c < length (calls s). status (calls s ! c) = Waiting
           \<and> call_internal_id (calls s ! c) = i \<and> call_async_response (calls s ! c) = f))
   \<and> (\<forall>l f r. (l, Set_result f r) \<in> set (scheduled s) \<longrightarrow>
        (\<exists>c < length (calls s). call_internal_id (calls s ! c) = response_id r
           \<and> call_async_response (calls s ! c) = f))
   \<and> (\<forall>c < length (calls s). \<forall>r.
        fut_state (futures s ! call_async_response (calls s ! c)) = FinishedResult r \<longrightarrow>
        response_id r = call_internal_id (calls s ! c))
   \<and> (\<forall>c < length (calls s). \<forall>r.
        status (calls s ! c) = CallReturned r \<longrightarrow> response_id r = call_internal_id (calls s ! c))
   \<and> (\<forall>c < length (calls s).
        must_cancel (calls s ! c) \<longrightarrow>
        fut_state (futures s ! call_async_response (calls s ! c)) \<noteq> Pending)"

definition round_robin_inv :: "(int \<times> 'p Worker) list \<Rightarrow> 'p Dispatcher \<Rightarrow> bool" where
  "round_robin_inv ws s \<longleftrightarrow>
     map fst (workers s) = map fst ws
   \<and> workers_round_robin s = cycle_at (map fst ws) (length (queue_request_count s))
   \<and> map fst (queue_request_count s) =
       map (\<lambda>k. fst (ws ! (k mod length ws))) [0..<length (queue_request_count s)]
   \<and> (\<forall>j < length ws. qsize (snd (workers s ! j)) =
         qsize (snd (ws ! j)) +
         length (filter (\<lambda>k. k mod length ws = j) [0..<length (queue_request_count s)]))"


definition waiting_ids :: "'p Dispatcher \<Rightarrow> string set" where
  "waiting_ids s = call_internal_id ` {k \<in> set (calls s). status k = Waiting}"

fun fresh_event :: "'p Dispatcher \<Rightarrow> 'p event \<Rightarrow> bool" where
  "fresh_event s (Dispatch loop n_tasks request_message) =
     (request_id request_message \<notin> waiting_ids s)"
| "fresh_event s (DispatchRegister loop n_tasks request_message) =
     (request_id request_message \<notin> waiting_ids s)"
| "fresh_event s e = True"

fun fresh_ids :: "'p Dispatcher \<Rightarrow> 'p event list \<Rightarrow> bool" where
  "fresh_ids s [] = True"
| "fresh_ids s (e # es) = (fresh_event s e \<and> fresh_ids (step e s) es)"

definition own_future :: "'p Dispatcher \<Rightarrow> bool" where
  "own_future s \<longleftrightarrow>
     (\<forall>c < length (calls s). status (calls s ! c) = Waiting \<longrightarrow>
        async_responses s (call_internal_id (calls s ! c)) = Some (call_async_response (calls s ! c)))"


fun resolve :: "'p callback \<Rightarrow> 'p future list \<Rightarrow> 'p future list" where
  "resolve (Set_result f r) fs =
     (if fut_state (fs ! f) = Pending then fs[f := (fs ! f)\<lparr>fut_state := FinishedResult r\<rparr>]
      else fs)"
| "resolve (Set_exception f e) fs =
     (if fut_state (fs ! f) = Pending \<and> e \<noteq> StopIteration
      then fs[f := (fs ! f)\<lparr>fut_state := FinishedException e\<rparr>]
      else fs)"

definition resolution :: "addr \<Rightarrow> 'p ModelResponseMessage \<Rightarrow> 'p callback" where
  "resolution fut r =
     (case exception r of
        None \<Rightarrow> Set_result fut r
      | Some e \<Rightarrow> if truthy e then Set_exception fut e else Set_result fut r)"

definition resolved :: "'p ModelResponseMessage \<Rightarrow> 'p future_state" where
  "resolved r =
     (case exception r of
        None \<Rightarrow> FinishedResult r
      | Some e \<Rightarrow> if \<not> truthy e then FinishedResult r
                  else if e = StopIteration then Pending
                  else FinishedException e)"

section \<open>Codec registry: lemmas\<close>

lemma register_all_append:
  "register_all (rs @ rs') \<sigma> = register_all rs' (register_all rs \<sigma>)"
  by (induction rs arbitrary: \<sigma>) simp_all

lemma default_dicts_distinct: "default_input_codecs \<noteq> default_request_codecs"
  by (simp add: default_input_codecs_def default_request_codecs_def)

lemma register_input_other:
  "\<not> registers_input ct r \<Longrightarrow>
   register r \<sigma> default_input_codecs ct = \<sigma> default_input_codecs ct"
  using default_dicts_distinct
  by (cases r)
     (simp_all add: register_input_codec_def register_request_codec_def
        CodecRegistry_register_input_codec_def CodecRegistry_register_request_codec_def
        codec_registry_def CodecRegistry_init_def)

lemma register_input_same:
  "register (RegisterInput ct codec) \<sigma> default_input_codecs ct = Some codec"
  by (simp add: register_input_codec_def CodecRegistry_register_input_codec_def
      codec_registry_def CodecRegistry_init_def)

lemma register_request_other:
  "\<not> registers_request ct r \<Longrightarrow>
   register r \<sigma> default_request_codecs ct = \<sigma> default_request_codecs ct"
  using default_dicts_distinct
  by (cases r)
     (simp_all add: register_input_codec_def register_request_codec_def
        CodecRegistry_register_input_codec_def CodecRegistry_register_request_codec_def
        codec_registry_def CodecRegistry_init_def)

lemma register_request_same:
  "register (RegisterRequest ct codec) \<sigma> default_request_codecs ct = Some codec"
  by (simp add: register_request_codec_def CodecRegistry_register_request_codec_def
      codec_registry_def CodecRegistry_init_def)

lemma register_all_input_unchanged:
  "\<forall>r \<in> set rs. \<not> registers_input ct r \<Longrightarrow>
   register_all rs \<sigma> default_input_codecs ct = \<sigma> default_input_codecs ct"
  by (induction rs arbitrary: \<sigma>) (simp_all add: register_input_other)

lemma register_all_request_unchanged:
  "\<forall>r \<in> set rs. \<not> registers_request ct r \<Longrightarrow>
   register_all rs \<sigma> default_request_codecs ct = \<sigma> default_request_codecs ct"
  by (induction rs arbitrary: \<sigma>) (simp_all add: register_request_other)

lemma find_input_codec_dict:
  "find_input_codec ct \<sigma> =
     (case \<sigma> default_input_codecs ct of None \<Rightarrow> Inl (KeyError (StrKey ct)) | Some c \<Rightarrow> Inr c)"
  by (simp add: find_input_codec_def CodecRegistry_find_input_codec_def codec_registry_def
      CodecRegistry_init_def)

lemma find_request_codec_dict:
  "find_request_codec ct \<sigma> =
     (case \<sigma> default_request_codecs ct of None \<Rightarrow> Inl (KeyError (StrKey ct)) | Some c \<Rightarrow> Inr c)"
  by (simp add: find_request_codec_def CodecRegistry_find_request_codec_def codec_registry_def
      CodecRegistry_init_def)

section \<open>Codec registry: the claims\<close>

text \<open>
  C9. Looking up a content type that no registration of the history names raises
  \<open>KeyError\<close> (there is no default and no \<open>None\<close>), for \<open>find_input_codec\<close> and for
  \<open>find_request_codec\<close> alike; looking up a registered content type returns the codec of
  its most recent registration, whatever was registered for it before.
\<close>

theorem find_codec_unregistered_or_latest:
  fixes history earlier later :: "'c registration list"
  shows
    "((\<forall>r \<in> set history. \<not> registers_input ct r) \<longrightarrow>
        find_input_codec ct (register_all history module_store) = Inl (KeyError (StrKey ct)))
   \<and> ((\<forall>r \<in> set history. \<not> registers_request ct r) \<longrightarrow>
        find_request_codec ct (register_all history module_store) = Inl (KeyError (StrKey ct)))
   \<and> ((\<forall>r \<in> set later. \<not> registers_input ct r) \<longrightarrow>
        find_input_codec ct
          (register_all (earlier @ RegisterInput ct codec # later) module_store) = Inr codec)
   \<and> ((\<forall>r \<in> set later. \<not> registers_request ct r) \<longrightarrow>
        find_request_codec ct
          (register_all (earlier @ RegisterRequest ct codec # later) module_store) = Inr codec)"
proof (intro conjI impI)
  assume "\<forall>r \<in> set history. \<not> registers_input ct r"
  then show "find_input_codec ct (register_all history module_store) = Inl (KeyError (StrKey ct))"
    by (simp add: find_input_codec_dict register_all_input_unchanged module_store_def)
next
  assume "\<forall>r \<in> set history. \<not> registers_request ct r"
  then show "find_request_codec ct (register_all history module_store) = Inl (KeyError (StrKey ct))"
    by (simp add: find_request_codec_dict register_all_request_unchanged module_store_def)
next
  assume "\<forall>r \<in> set later. \<not> registers_input ct r"
  then show "find_input_codec ct
      (register_all (earlier @ RegisterInput ct codec # later) module_store) = Inr codec"
    by (simp add: find_input_codec_dict register_all_append register_all_input_unchanged
        register_input_same del: register.simps)
next
  assume "\<forall>r \<in> set later. \<not> registers_request ct r"
  then show "find_request_codec ct
      (register_all (earlier @ RegisterRequest ct codec # later) module_store) = Inr codec"
    by (simp add: find_request_codec_dict register_all_append register_all_request_unchanged
        register_request_same del: register.simps)
qed

theorem find_codec_unregistered_or_latest_witness:
  "find_input_codec ''np''
     (register_all [RegisterRequest ''pd'' (1::nat), RegisterInput ''str'' 2] module_store)
     = Inl (KeyError (StrKey ''np''))
   \<and> find_request_codec ''np''
     (register_all [RegisterRequest ''pd'' (1::nat), RegisterInput ''str'' 2] module_store)
     = Inl (KeyError (StrKey ''np''))
   \<and> find_input_codec ''np''
     (register_all ([RegisterInput ''np'' (1::nat), RegisterRequest ''np'' 7] @
        RegisterInput ''np'' 2 # [RegisterRequest ''np'' 3, RegisterInput ''str'' 4])
        module_store) = Inr 2
   \<and> find_request_codec ''np''
     (register_all ([RegisterInput ''np'' (1::nat), RegisterRequest ''np'' 7] @
        RegisterRequest ''np'' 2 # [RegisterInput ''np'' 3, RegisterRequest ''str'' 4])
        module_store) = Inr 2"
  using find_codec_unregistered_or_latest
    [of "[RegisterRequest ''pd'' (1::nat), RegisterInput ''str'' 2]" "''np''"
        "[RegisterRequest ''np'' (3::nat), RegisterInput ''str'' 4]"
        "[RegisterInput ''np'' (1::nat), RegisterRequest ''np'' 7]" 2]
    find_codec_unregistered_or_latest
    [of "[]" "''np''"
        "[RegisterInput ''np'' (3::nat), RegisterRequest ''str'' 4]"
        "[RegisterInput ''np'' (1::nat), RegisterRequest ''np'' 7]" 2]
  by simp

lemma act_instances:
  "\<exists>more. instances (act a h) = instances h @ more"
  by (cases a)
     (simp_all add: construct_def register_input_codec_on_def register_request_codec_on_def)

lemma acts_instances:
  "\<exists>more. instances (acts as h) = instances h @ more"
proof (induction as arbitrary: h)
  case Nil
  then show ?case by simp
next
  case (Cons a as)
  from act_instances [of a h] obtain m1 where m1: "instances (act a h) = instances h @ m1"
    by blast
  from Cons.IH [of "act a h"] obtain m2
    where "instances (acts as (act a h)) = instances (act a h) @ m2"
    by blast
  with m1 have "instances (acts (a # as) h) = instances h @ (m1 @ m2)" by simp
  then show ?case by blast
qed

lemma acts_keeps_instance:
  assumes "i < length (instances h)"
  shows "instances (acts as h) ! i = instances h ! i"
    and "i < length (instances (acts as h))"
proof -
  from acts_instances [of as h] obtain more
    where "instances (acts as h) = instances h @ more" by blast
  with assms show "instances (acts as h) ! i = instances h ! i"
    and "i < length (instances (acts as h))"
    by (simp_all add: nth_append)
qed

lemma construct_instance:
  assumes "construct input_arg request_arg h = (i, h')"
  shows "i = length (instances h)" and "i < length (instances h')"
    and "instances h' ! i = CodecRegistry_init input_arg request_arg"
    and "dictionaries h' = dictionaries h"
  using assms by (auto simp add: construct_def)

text \<open>
  C10. Create two instances without dictionary arguments, at any two moments of a
  program that creates instances and registers codecs as it likes before, between and
  after. They are two objects, and they hold the same two dictionaries: a codec
  registered on either is the codec the other finds, for input codecs and for request
  codecs, and the module-level \<open>find\<close> functions of the singleton find it too. An
  instance created with dictionaries of its own does not see the registration.
\<close>

theorem default_registries_share_dictionaries:
  fixes h :: "'c heap"
  assumes "construct None None (acts before h) = (i, h1)"
    and "construct None None (acts between h1) = (j, h2)"
  shows "i \<noteq> j
   \<and> find_input_codec_on j ct (register_input_codec_on i ct codec (acts later h2)) = Inr codec
   \<and> find_input_codec_on i ct (register_input_codec_on j ct codec (acts later h2)) = Inr codec
   \<and> find_request_codec_on j ct (register_request_codec_on i ct codec (acts later h2))
       = Inr codec
   \<and> find_request_codec_on i ct (register_request_codec_on j ct codec (acts later h2))
       = Inr codec
   \<and> find_input_codec ct
        (dictionaries (register_input_codec_on i ct codec (acts later h2))) = Inr codec
   \<and> find_request_codec ct
        (dictionaries (register_request_codec_on j ct codec (acts later h2))) = Inr codec
   \<and> (construct (Some a) (Some b) (acts later h2) = (k, h3)
        \<and> a \<noteq> default_input_codecs \<and> dictionaries h3 a ct = None \<longrightarrow>
        find_input_codec_on k ct (register_input_codec_on i ct codec h3)
          = Inl (KeyError (StrKey ct)))"
proof -
  let ?h = "acts later h2"
  note ci = construct_instance [OF assms(1)]
  note cj = construct_instance [OF assms(2)]
  from ci(2) have i1: "i < length (instances (acts between h1))"
    by (rule acts_keeps_instance(2))
  with cj(1) have ne: "i \<noteq> j" by simp
  from i1 cj(1) have "i < length (instances h2)"
    using assms(2) by (auto simp add: construct_def)
  moreover have "instances h2 ! i = CodecRegistry_init None None"
    using assms(2) i1 ci(3) acts_keeps_instance(1) [OF ci(2), of between]
    by (auto simp add: construct_def nth_append)
  ultimately have i: "instances ?h ! i = CodecRegistry_init None None"
    by (simp add: acts_keeps_instance(1))
  from cj(2,3) have j: "instances ?h ! j = CodecRegistry_init None None"
    by (simp add: acts_keeps_instance(1))
  have shared: "find_input_codec_on j ct (register_input_codec_on i ct codec ?h) = Inr codec"
    "find_input_codec_on i ct (register_input_codec_on j ct codec ?h) = Inr codec"
    "find_request_codec_on j ct (register_request_codec_on i ct codec ?h) = Inr codec"
    "find_request_codec_on i ct (register_request_codec_on j ct codec ?h) = Inr codec"
    "find_input_codec ct (dictionaries (register_input_codec_on i ct codec ?h)) = Inr codec"
    "find_request_codec ct (dictionaries (register_request_codec_on j ct codec ?h)) = Inr codec"
    by (simp_all add: i j find_input_codec_on_def register_input_codec_on_def
        find_request_codec_on_def register_request_codec_on_def
        CodecRegistry_init_def CodecRegistry_find_input_codec_def
        CodecRegistry_register_input_codec_def CodecRegistry_find_request_codec_def
        CodecRegistry_register_request_codec_def find_input_codec_def find_request_codec_def
        codec_registry_def)
  have own: "find_input_codec_on k ct (register_input_codec_on i ct codec h3)
          = Inl (KeyError (StrKey ct))"
    if k: "construct (Some a) (Some b) ?h = (k, h3)"
      and a: "a \<noteq> default_input_codecs" and none: "dictionaries h3 a ct = None"
  proof -
    note ck = construct_instance [OF k]
    from \<open>i < length (instances h2)\<close> have "i < length (instances ?h)"
      by (rule acts_keeps_instance(2))
    with k i have i3: "instances h3 ! i = CodecRegistry_init None None"
      by (auto simp add: construct_def nth_append)
    from ck(3) a none i3 show ?thesis
      by (simp add: find_input_codec_on_def register_input_codec_on_def
          CodecRegistry_init_def CodecRegistry_find_input_codec_def
          CodecRegistry_register_input_codec_def)
  qed
  from ne shared own show ?thesis by blast
qed

theorem default_registries_share_dictionaries_witness:
  "(1::nat) \<noteq> 3
   \<and> find_input_codec_on 3 ''np''
       (register_input_codec_on 1 ''np'' (7::nat)
          (acts [RegisterInputOn 2 ''np'' 5]
             (snd (construct None None
                (acts [Construct (Some 4) (Some 5)]
                   (snd (construct None None (acts [RegisterInputOn 0 ''str'' 1] module_heap))))))))
     = Inr 7"
  using default_registries_share_dictionaries
    [of "[RegisterInputOn 0 ''str'' (1::nat)]" module_heap 1
        "snd (construct None None (acts [RegisterInputOn 0 ''str'' (1::nat)] module_heap))"
        "[Construct (Some 4) (Some 5)]" 3
        "snd (construct None None
                (acts [Construct (Some 4) (Some 5)]
                   (snd (construct None None (acts [RegisterInputOn 0 ''str'' (1::nat)] module_heap)))))"
        "''np''" 7 "[RegisterInputOn 2 ''np'' 5]"]
  by (simp add: construct_def module_heap_def register_input_codec_on_def
      find_input_codec_on_def module_store_def codec_registry_def CodecRegistry_init_def
      CodecRegistry_find_input_codec_def CodecRegistry_register_input_codec_def
      default_input_codecs_def default_request_codecs_def)
section \<open>Dispatcher: lemmas\<close>

lemma cycle_at_0: "cycle_at ks 0 = cycle_init ks"
  by (cases ks) (simp_all add: cycle_at_def cycle_init_def)

lemma cycle_next_at:
  assumes "ks \<noteq> []"
  shows "cycle_next (cycle_at ks k) = Some (ks ! (k mod length ks), cycle_at ks (Suc k))"
proof (cases "k < length ks")
  case True
  then have d: "drop k ks = ks ! k # drop (Suc k) ks"
    by (simp add: Cons_nth_drop_Suc)
  show ?thesis
  proof (cases "Suc k < length ks")
    case True
    with \<open>k < length ks\<close> d show ?thesis
      by (simp add: cycle_at_def cycle_next_def take_Suc_conv_app_nth)
  next
    case False
    with \<open>k < length ks\<close> have "Suc k = length ks" by simp
    with \<open>k < length ks\<close> d show ?thesis
      by (simp add: cycle_at_def cycle_next_def take_Suc_conv_app_nth [symmetric])
  qed
next
  case False
  let ?n = "length ks"
  let ?j = "k mod ?n"
  from assms have n: "0 < ?n" by simp
  then have j: "?j < ?n" by simp
  show ?thesis
  proof (cases "?j = 0")
    case True
    from assms obtain z zs where ks: "ks = z # zs" by (cases ks) auto
    have "Suc k mod ?n = (if ?n = 1 then 0 else 1)"
      using True n by (simp add: mod_Suc)
    with True False ks show ?thesis
      by (auto simp add: cycle_at_def cycle_next_def)
  next
    case nz: False
    have d: "drop ?j ks = ks ! ?j # drop (Suc ?j) ks"
      using j by (simp add: Cons_nth_drop_Suc)
    have "Suc k mod ?n = (if Suc ?j = ?n then 0 else Suc ?j)"
      by (simp add: mod_Suc)
    with nz False d show ?thesis
      by (auto simp add: cycle_at_def cycle_next_def)
  qed
qed

lemma count_mod:
  assumes "j < n"
  shows "length (filter (\<lambda>k. k mod n = j) [0..<m]) = m div n + (if j < m mod n then 1 else 0)"
proof (induction m)
  case 0
  then show ?case by simp
next
  case (Suc m)
  from assms have n: "0 < n" by simp
  show ?case
  proof (cases "Suc (m mod n) = n")
    case True
    with Suc assms show ?thesis
      by (auto simp add: mod_Suc div_Suc)
  next
    case False
    with Suc assms show ?thesis
      by (auto simp add: mod_Suc div_Suc)
  qed
qed


lemmas event_defs =
  start_def process_responses_def process_response_def finish_def task_done_def
  process_responses_cb_def run_scheduled_def set_result_def set_exception_def
  wait_response_resume_def wait_response_finally_def cancel_call_def
  terminate_queue_def stop_shutdown_def cancel_task_def

lemmas event_splits =
  option.splits list.splits item.splits prod.splits sum.splits task.splits
  task_result.splits future_state.splits callback.splits if_splits

lemma run_callback_frame:
  "workers (run_callback cb s) = workers s"
  "workers_round_robin (run_callback cb s) = workers_round_robin s"
  "queue_request_count (run_callback cb s) = queue_request_count s"
  by (cases cb; simp add: set_result_def set_exception_def)+

lemma map_of_nth:
  "distinct (map fst xs) \<Longrightarrow> i < length xs \<Longrightarrow> map_of xs (fst (xs ! i)) = Some (snd (xs ! i))"
  by (simp add: map_of_eq_Some_iff)

lemma dispatch_register_frame:
  "workers (snd (dispatch_register loop n_tasks request_message s)) = workers s"
  "workers_round_robin (snd (dispatch_register loop n_tasks request_message s)) = workers_round_robin s"
  "queue_request_count (snd (dispatch_register loop n_tasks request_message s)) = queue_request_count s"
  by (simp_all add: dispatch_register_def wait_response_begin_def workers_processes_monitor_def
      Let_def)

lemma step_round_robin_frame:
  assumes "\<not> is_dispatch e"
  shows "workers (step e s) = workers s"
    and "workers_round_robin (step e s) = workers_round_robin s"
    and "queue_request_count (step e s) = queue_request_count s"
  using assms
  by (cases e; simp add: event_defs run_callback_frame dispatch_register_frame Let_def
        split: event_splits)+

lemma get_worker_round_robin:
  assumes ws: "ws \<noteq> []" and d: "distinct (map fst ws)" and inv: "round_robin_inv ws s"
  shows "get_worker s =
           (Inr (snd (workers s ! (length (queue_request_count s) mod length ws)),
                 fst (ws ! (length (queue_request_count s) mod length ws))),
            s\<lparr>workers_round_robin :=
                cycle_at (map fst ws) (Suc (length (queue_request_count s)))\<rparr>)"
proof -
  let ?k = "length (queue_request_count s)"
  let ?i = "?k mod length ws"
  from ws have i: "?i < length ws" by simp
  from inv have keys: "map fst (workers s) = map fst ws"
    and rr: "workers_round_robin s = cycle_at (map fst ws) ?k"
    by (simp_all add: round_robin_inv_def)
  from keys have len: "length (workers s) = length ws"
    by (metis length_map)
  from keys i len have fst_eq: "fst (workers s ! ?i) = fst (ws ! ?i)"
    by (metis nth_map)
  from ws have "cycle_next (cycle_at (map fst ws) ?k)
      = Some (map fst ws ! (?k mod length (map fst ws)), cycle_at (map fst ws) (Suc ?k))"
    by (intro cycle_next_at) simp
  with i have nxt: "cycle_next (workers_round_robin s)
      = Some (fst (ws ! ?i), cycle_at (map fst ws) (Suc ?k))"
    by (simp add: rr)
  from d keys have "distinct (map fst (workers s))" by simp
  with i len have "map_of (workers s) (fst (workers s ! ?i)) = Some (snd (workers s ! ?i))"
    by (intro map_of_nth) simp_all
  with fst_eq have "map_of (workers s) (fst (ws ! ?i)) = Some (snd (workers s ! ?i))"
    by simp
  with nxt show ?thesis
    by (simp add: get_worker_def)
qed

lemma dispatch_submit_round_robin:
  assumes ws: "ws \<noteq> []" and d: "distinct (map fst ws)" and inv: "round_robin_inv ws s"
  shows "round_robin_inv ws (snd (dispatch_submit request_message s))"
    and "length (queue_request_count (snd (dispatch_submit request_message s)))
           = Suc (length (queue_request_count s))"
    and "fst (dispatch_submit request_message s) = Inr ()"
proof -
  let ?k = "length (queue_request_count s)"
  let ?i = "?k mod length ws"
  let ?pid = "fst (ws ! ?i)"
  let ?s' = "snd (dispatch_submit request_message s)"
  from ws have i: "?i < length ws" by simp
  from inv have keys: "map fst (workers s) = map fst ws"
    and log: "map fst (queue_request_count s) = map (\<lambda>k. fst (ws ! (k mod length ws))) [0..<?k]"
    and depth: "\<forall>j < length ws. qsize (snd (workers s ! j)) =
         qsize (snd (ws ! j)) + length (filter (\<lambda>k. k mod length ws = j) [0..<?k])"
    by (simp_all add: round_robin_inv_def)
  from keys have len: "length (workers s) = length ws"
    by (metis length_map)
  note gw = get_worker_round_robin [OF ws d inv]
  have w': "workers ?s' = map (\<lambda>(pid, w). if pid = ?pid
                 then (pid, send_request w request_message) else (pid, w)) (workers s)"
    and rr': "workers_round_robin ?s' = cycle_at (map fst ws) (Suc ?k)"
    and q': "queue_request_count ?s' = queue_request_count s @
                 [(?pid, qsize (snd (workers s ! ?i)))]"
    by (simp_all add: dispatch_submit_def gw workers_queue_monitor_def
        worker_send_request_def Let_def)
  show "fst (dispatch_submit request_message s) = Inr ()"
    by (simp add: dispatch_submit_def gw Let_def)
  show "length (queue_request_count ?s') = Suc ?k"
    by (simp add: q')
  have k1: "map fst (workers ?s') = map fst ws"
    unfolding w' keys [symmetric] by (induction "workers s") auto
  have k3: "map fst (queue_request_count ?s')
       = map (\<lambda>k. fst (ws ! (k mod length ws))) [0..<length (queue_request_count ?s')]"
    by (simp add: q' log)
  have k4: "qsize (snd (workers ?s' ! j)) = qsize (snd (ws ! j)) +
         length (filter (\<lambda>k. k mod length ws = j) [0..<length (queue_request_count ?s')])"
    if j: "j < length ws" for j
  proof -
    from keys j len have fj: "fst (workers s ! j) = fst (ws ! j)"
      by (metis nth_map)
    from d j i have same: "fst (ws ! j) = ?pid \<longleftrightarrow> j = ?i"
      by (metis (no_types, lifting) length_map nth_eq_iff_index_eq nth_map)
    from j len fj have "snd (workers ?s' ! j) =
        (if fst (ws ! j) = ?pid then send_request (snd (workers s ! j)) request_message
         else snd (workers s ! j))"
      by (cases "workers s ! j") (auto simp add: w')
    with same have "qsize (snd (workers ?s' ! j)) =
        qsize (snd (workers s ! j)) + (if j = ?i then 1 else 0)"
      by (simp add: qsize_def send_request_def)
    with depth j show ?thesis
      by (auto simp add: q')
  qed
  from k1 rr' k3 k4 show "round_robin_inv ws ?s'"
    unfolding round_robin_inv_def by (simp add: q')
qed

lemma step_round_robin:
  assumes ws: "ws \<noteq> []" and d: "distinct (map fst ws)" and inv: "round_robin_inv ws s"
  shows "round_robin_inv ws (step e s)"
    and "length (queue_request_count (step e s))
           = length (queue_request_count s) + (if is_dispatch e then 1 else 0)"
proof -
  have both: "round_robin_inv ws (step e s)
     \<and> length (queue_request_count (step e s))
           = length (queue_request_count s) + (if is_dispatch e then 1 else 0)"
  proof (cases "is_dispatch e")
    case True
    then consider loop n_tasks request_message where "e = Dispatch loop n_tasks request_message"
      | request_message where "e = DispatchSubmit request_message"
      by (cases e) auto
    then show ?thesis
    proof cases
      case 1
      from dispatch_submit_round_robin [OF ws d inv, of request_message]
      show ?thesis
        by (cases "dispatch_submit request_message s")
           (simp add: 1 dispatch_def round_robin_inv_def dispatch_register_frame)
    next
      case 2
      from dispatch_submit_round_robin [OF ws d inv, of request_message]
      show ?thesis
        by (simp add: 2)
    qed
  next
    case False
    with inv show ?thesis
      by (simp add: round_robin_inv_def step_round_robin_frame)
  qed
  from both show "round_robin_inv ws (step e s)" by simp
  from both show "length (queue_request_count (step e s))
           = length (queue_request_count s) + (if is_dispatch e then 1 else 0)" by simp
qed

lemma run_round_robin:
  assumes ws: "ws \<noteq> []" and d: "distinct (map fst ws)"
  shows "round_robin_inv ws s \<Longrightarrow>
         round_robin_inv ws (run es s)
       \<and> length (queue_request_count (run es s))
           = length (queue_request_count s) + dispatch_count es"
proof (induction es arbitrary: s)
  case Nil
  then show ?case by (simp add: dispatch_count_def)
next
  case (Cons e es)
  from step_round_robin [OF ws d Cons.prems, of e] Cons.IH [of "step e s"]
  show ?case
    by (simp add: dispatch_count_def)
qed

lemma init_round_robin: "round_robin_inv ws (Dispatcher_init ws q)"
  by (simp add: round_robin_inv_def Dispatcher_init_def cycle_at_0)

lemma div_shape:
  fixes a b n :: nat
  assumes "b < n"
  shows "(a * n + b) div n = a"
  using assms by simp

lemma ceil_div:
  fixes m n :: nat
  assumes "0 < n"
  shows "(m + n - 1) div n = m div n + (if m mod n = 0 then 0 else 1)"
proof -
  obtain a b where ab: "a = m div n" "b = m mod n" by simp
  then have m: "m = a * n + b" and b: "b < n" using assms by simp_all
  show ?thesis
  proof (cases "b = 0")
    case True
    have "n - 1 < n" using assms by simp
    then have "(a * n + (n - 1)) div n = a" by (rule div_shape)
    moreover have "m + n - 1 = a * n + (n - 1)" using m assms True by simp
    ultimately have "(m + n - 1) div n = a" by simp
    with True ab show ?thesis by simp
  next
    case False
    have "b - 1 < n" using b by simp
    then have "((a + 1) * n + (b - 1)) div n = a + 1" by (rule div_shape)
    moreover have "m + n - 1 = (a + 1) * n + (b - 1)" using m False by simp
    ultimately have "(m + n - 1) div n = a + 1" by simp
    with False ab show ?thesis by simp
  qed
qed

lemma consistent_init: "consistent (Dispatcher_init ws q)"
  by (simp add: consistent_def Dispatcher_init_def)

lemma consistent_frame:
  assumes "consistent s"
    and "calls s' = calls s" and "futures s' = futures s"
    and "async_responses s' = async_responses s" and "scheduled s' = scheduled s"
  shows "consistent s'"
  using assms unfolding consistent_def by simp

lemma consistent_start: "consistent s \<Longrightarrow> consistent (start s)"
  by (erule consistent_frame) (simp_all add: start_def)

lemma consistent_put:
  "consistent s \<Longrightarrow> consistent (step (Put r) s)"
  by (erule consistent_frame) simp_all

lemma consistent_task_done: "consistent s \<Longrightarrow> consistent (task_done t s)"
  by (erule consistent_frame)
     (simp_all add: task_done_def process_responses_cb_def start_def
        split: task.splits task_result.splits)

lemma consistent_terminate_queue: "consistent s \<Longrightarrow> consistent (snd (terminate_queue s))"
  by (erule consistent_frame) (simp_all add: terminate_queue_def)

lemma consistent_stop_shutdown: "consistent s \<Longrightarrow> consistent (snd (stop_shutdown s))"
  by (erule consistent_frame)
     (simp_all add: stop_shutdown_def cancel_task_def finish_def Let_def
        split: option.splits task.splits task_result.splits)


lemma consistent_schedule:
  assumes inv: "consistent s"
    and "calls s' = calls s" and "futures s' = futures s"
    and "async_responses s' = async_responses s"
    and sch: "scheduled s' = scheduled s @ [(l, cb)]"
    and cb: "\<And>f r. cb = Set_result f r \<Longrightarrow> async_responses s (response_id r) = Some f"
  shows "consistent s'"
proof -
  have "\<exists>c < length (calls s). call_internal_id (calls s ! c) = response_id r
           \<and> call_async_response (calls s ! c) = f"
    if "(l', Set_result f r) \<in> set (scheduled s')" for l' f r
  proof (cases "(l', Set_result f r) \<in> set (scheduled s)")
    case True
    with inv show ?thesis unfolding consistent_def by blast
  next
    case False
    with that sch have "cb = Set_result f r" by auto
    then have "async_responses s (response_id r) = Some f" by (rule cb)
    with inv show ?thesis unfolding consistent_def by blast
  qed
  with assms(1-4) show ?thesis
    unfolding consistent_def by simp
qed

lemma process_response_effect:
  "calls (snd (process_response r s)) = calls s"
  "futures (snd (process_response r s)) = futures s"
  "async_responses (snd (process_response r s)) = async_responses s"
  "tasks (snd (process_response r s)) = tasks s"
  "responses (snd (process_response r s)) = responses s"
  by (simp_all add: process_response_def Let_def split: option.splits)

lemma process_response_scheduled:
  "scheduled (snd (process_response r s)) =
     (case async_responses s (response_id r) of
        None \<Rightarrow> scheduled s
      | Some f \<Rightarrow> scheduled s @ [(fut_loop (futures s ! f), resolution f r)])"
  by (simp add: process_response_def resolution_def Let_def split: option.splits)

lemma resolution_Set_result:
  "resolution f r = Set_result f' r' \<Longrightarrow> f' = f \<and> r' = r"
  by (auto simp add: resolution_def split: option.splits if_splits)

lemma consistent_process_response:
  assumes "consistent s"
  shows "consistent (snd (process_response r s))"
proof (cases "async_responses s (response_id r)")
  case None
  with assms show ?thesis
    by (elim consistent_frame) (simp_all add: process_response_effect process_response_scheduled)
next
  case (Some f)
  from assms show ?thesis
  proof (rule consistent_schedule)
    show "scheduled (snd (process_response r s)) = scheduled s @
          [(fut_loop (futures s ! f), resolution f r)]"
      using Some by (simp add: process_response_scheduled)
    show "async_responses s (response_id r') = Some f'"
      if "resolution f r = Set_result f' r'" for f' r'
      using resolution_Set_result [OF that] Some by simp
  qed (simp_all add: process_response_effect)
qed

lemma consistent_finish: "consistent s \<Longrightarrow> consistent (finish t res s)"
  by (erule consistent_frame) (simp_all add: finish_def)

lemma consistent_pop:
  "consistent s \<Longrightarrow> consistent (s\<lparr>responses := q\<rparr>)"
  by (erule consistent_frame) simp_all

lemma consistent_process_responses:
  assumes "consistent s"
  shows "consistent (process_responses t s)"
proof -
  have "consistent (case process_response r s1 of
                     (Inl e, s2) \<Rightarrow> finish t (Crashed e) s2
                   | (Inr u, s2) \<Rightarrow> s2)" if "consistent s1" for r and s1 :: "'a Dispatcher"
    using consistent_process_response [OF that, of r]
    by (cases "process_response r s1") (auto split: sum.splits intro: consistent_finish)
  with assms show ?thesis
    by (simp add: process_responses_def Let_def consistent_finish consistent_pop
        split: list.splits item.splits)
qed


lemma dispatch_submit_frame:
  "calls (snd (dispatch_submit request_message s)) = calls s"
  "futures (snd (dispatch_submit request_message s)) = futures s"
  "async_responses (snd (dispatch_submit request_message s)) = async_responses s"
  "scheduled (snd (dispatch_submit request_message s)) = scheduled s"
  "tasks (snd (dispatch_submit request_message s)) = tasks s"
  "responses (snd (dispatch_submit request_message s)) = responses s"
  by (simp_all add: dispatch_submit_def get_worker_def workers_queue_monitor_def
      worker_send_request_def Let_def split: option.splits prod.splits)

lemma dispatch_register_effect:
  "fst (dispatch_register loop n_tasks request_message s) = Inr (length (calls s))"
  "calls (snd (dispatch_register loop n_tasks request_message s)) =
     calls s @ [\<lparr> call_internal_id = request_id request_message,
                  call_async_response = length (futures s),
                  must_cancel = False, status = Waiting \<rparr>]"
  "futures (snd (dispatch_register loop n_tasks request_message s)) =
     futures s @ [\<lparr> fut_loop = loop, fut_state = Pending \<rparr>]"
  "async_responses (snd (dispatch_register loop n_tasks request_message s)) =
     (async_responses s)(request_id request_message \<mapsto> length (futures s))"
  "scheduled (snd (dispatch_register loop n_tasks request_message s)) = scheduled s"
  "tasks (snd (dispatch_register loop n_tasks request_message s)) = tasks s"
  "responses (snd (dispatch_register loop n_tasks request_message s)) = responses s"
  by (simp_all add: dispatch_register_def wait_response_begin_def workers_processes_monitor_def
      Let_def)

lemma consistent_dispatch_register:
  assumes inv: "consistent s"
  shows "consistent (snd (dispatch_register loop n_tasks request_message s))"
proof -
  let ?s' = "snd (dispatch_register loop n_tasks request_message s)"
  let ?new = "\<lparr> call_internal_id = request_id request_message,
                 call_async_response = length (futures s),
                 must_cancel = False, status = Waiting \<rparr> :: 'a call"
  note eff = dispatch_register_effect [of loop n_tasks request_message s]
  from inv have valid: "\<forall>c < length (calls s). call_async_response (calls s ! c) < length (futures s)"
    unfolding consistent_def by blast
  have old: "calls ?s' ! c = calls s ! c" if "c < length (calls s)" for c
    using that by (simp add: eff nth_append)
  have new: "calls ?s' ! length (calls s) = ?new"
    by (simp add: eff)
  have len: "length (calls ?s') = Suc (length (calls s))"
    by (simp add: eff)
  have oldf: "futures ?s' ! call_async_response (calls s ! c)
                = futures s ! call_async_response (calls s ! c)" if "c < length (calls s)" for c
    using that valid by (simp add: eff nth_append)
  have newf: "futures ?s' ! length (futures s) = \<lparr> fut_loop = loop, fut_state = Pending \<rparr>"
    by (simp add: eff)
  have cases: "c < length (calls s) \<or> c = length (calls s)" if "c < length (calls ?s')" for c
    using that len by auto
  have lenf: "length (futures ?s') = Suc (length (futures s))"
    by (simp add: eff)
  have 1: "call_async_response (calls ?s' ! c) < length (futures ?s')"
    if "c < length (calls ?s')" for c
    using cases [OF that] valid by (auto simp add: old new lenf less_SucI)
  have 2: "c = c'"
    if "c < length (calls ?s')" "c' < length (calls ?s')"
      "call_async_response (calls ?s' ! c) = call_async_response (calls ?s' ! c')" for c c'
  proof -
    from inv have inj: "\<forall>c < length (calls s). \<forall>c' < length (calls s).
        call_async_response (calls s ! c) = call_async_response (calls s ! c') \<longrightarrow> c = c'"
      unfolding consistent_def by blast
    from cases [OF that(1)] cases [OF that(2)] that(3) show ?thesis
    proof (elim disjE)
      assume "c < length (calls s)" "c' < length (calls s)"
      with that(3) inj show ?thesis by (simp add: old)
    next
      assume "c < length (calls s)" "c' = length (calls s)"
      with that(3) valid show ?thesis by (auto simp add: old new)
    next
      assume "c = length (calls s)" "c' < length (calls s)"
      with that(3) valid show ?thesis by (auto simp add: old new)
    next
      assume "c = length (calls s)" "c' = length (calls s)"
      then show ?thesis by simp
    qed
  qed
  have 3: "\<exists>c < length (calls ?s'). status (calls ?s' ! c) = Waiting
           \<and> call_internal_id (calls ?s' ! c) = i \<and> call_async_response (calls ?s' ! c) = f"
    if "async_responses ?s' i = Some f" for i f
  proof (cases "i = request_id request_message")
    case True
    with that have "f = length (futures s)" by (simp add: eff)
    with True have "status (calls ?s' ! length (calls s)) = Waiting
           \<and> call_internal_id (calls ?s' ! length (calls s)) = i
           \<and> call_async_response (calls ?s' ! length (calls s)) = f"
      by (simp add: new)
    with len show ?thesis by (metis lessI)
  next
    case False
    with that have "async_responses s i = Some f" by (simp add: eff)
    with inv obtain c where "c < length (calls s)" "status (calls s ! c) = Waiting"
      "call_internal_id (calls s ! c) = i" "call_async_response (calls s ! c) = f"
      unfolding consistent_def by blast
    with len show ?thesis by (metis old less_Suc_eq)
  qed
  have 4: "\<exists>c < length (calls ?s'). call_internal_id (calls ?s' ! c) = response_id r
           \<and> call_async_response (calls ?s' ! c) = f"
    if "(l, Set_result f r) \<in> set (scheduled ?s')" for l f r
  proof -
    from that have "(l, Set_result f r) \<in> set (scheduled s)" by (simp add: eff)
    with inv obtain c where "c < length (calls s)"
      "call_internal_id (calls s ! c) = response_id r" "call_async_response (calls s ! c) = f"
      unfolding consistent_def by blast
    with len show ?thesis by (metis old less_Suc_eq)
  qed
  have 5: "response_id r = call_internal_id (calls ?s' ! c)"
    if "c < length (calls ?s')"
      "fut_state (futures ?s' ! call_async_response (calls ?s' ! c)) = FinishedResult r" for c r
  proof -
    from cases [OF that(1)] show ?thesis
    proof
      assume c: "c < length (calls s)"
      with that(2) have "fut_state (futures s ! call_async_response (calls s ! c)) = FinishedResult r"
        by (simp add: old oldf)
      with inv c show ?thesis unfolding consistent_def by (simp add: old)
    next
      assume "c = length (calls s)"
      with that(2) show ?thesis by (simp add: new newf)
    qed
  qed
  have 6: "response_id r = call_internal_id (calls ?s' ! c)"
    if "c < length (calls ?s')" "status (calls ?s' ! c) = CallReturned r" for c r
  proof -
    from cases [OF that(1)] show ?thesis
    proof
      assume c: "c < length (calls s)"
      with that(2) inv show ?thesis unfolding consistent_def by (simp add: old)
    next
      assume "c = length (calls s)"
      with that(2) show ?thesis by (simp add: new)
    qed
  qed
  have 7: "fut_state (futures ?s' ! call_async_response (calls ?s' ! c)) \<noteq> Pending"
    if "c < length (calls ?s')" "must_cancel (calls ?s' ! c)" for c
  proof -
    from cases [OF that(1)] show ?thesis
    proof
      assume c: "c < length (calls s)"
      with that(2) inv show ?thesis unfolding consistent_def by (simp add: old oldf)
    next
      assume "c = length (calls s)"
      with that(2) show ?thesis by (simp add: new)
    qed
  qed
  from 1 2 3 4 5 6 7 show ?thesis
    unfolding consistent_def by blast
qed

lemma consistent_dispatch_submit:
  "consistent s \<Longrightarrow> consistent (snd (dispatch_submit request_message s))"
  by (erule consistent_frame) (simp_all add: dispatch_submit_frame)

lemma consistent_dispatch:
  assumes "consistent s"
  shows "consistent (snd (dispatch loop n_tasks request_message s))"
proof -
  from assms have "consistent (snd (dispatch_submit request_message s))"
    by (rule consistent_dispatch_submit)
  then show ?thesis
    by (cases "dispatch_submit request_message s")
       (auto simp add: dispatch_def consistent_dispatch_register split: sum.splits)
qed


lemma take_scheduled_Some:
  "take_scheduled l xs = Some (cb, rest) \<Longrightarrow>
   \<exists>pre post. xs = pre @ (l, cb) # post \<and> rest = pre @ post \<and> l \<notin> fst ` set pre"
proof (induction xs arbitrary: rest)
  case Nil
  then show ?case by simp
next
  case (Cons x xs)
  obtain l' cb' where x: "x = (l', cb')" by (cases x)
  show ?case
  proof (cases "l' = l")
    case True
    with Cons.prems x have "cb = cb'" "rest = xs" by simp_all
    with True x have "x # xs = [] @ (l, cb) # xs \<and> rest = [] @ xs \<and> l \<notin> fst ` set []"
      by simp
    then show ?thesis by blast
  next
    case False
    with Cons.prems x obtain rest' where t: "take_scheduled l xs = Some (cb, rest')"
      and r: "rest = (l', cb') # rest'"
      by (auto split: option.splits)
    from Cons.IH [OF t] obtain pre post where
      "xs = pre @ (l, cb) # post" "rest' = pre @ post" "l \<notin> fst ` set pre"
      by blast
    with False x r have "x # xs = ((l', cb') # pre) @ (l, cb) # post
        \<and> rest = ((l', cb') # pre) @ post \<and> l \<notin> fst ` set ((l', cb') # pre)"
      by auto
    then show ?thesis by blast
  qed
qed


lemma consistent_futures:
  assumes inv: "consistent s"
    and c: "calls s' = calls s"
    and t: "async_responses s' = async_responses s"
    and sch: "set (scheduled s') \<subseteq> set (scheduled s)"
    and stay: "\<And>g. g < length (futures s) \<Longrightarrow> fut_state (futures s ! g) \<noteq> Pending \<Longrightarrow>
                 fut_state (futures s' ! g) \<noteq> Pending"
    and res: "\<And>g r. g < length (futures s) \<Longrightarrow> fut_state (futures s' ! g) = FinishedResult r \<Longrightarrow>
                 fut_state (futures s ! g) = FinishedResult r
               \<or> (\<exists>l. (l, Set_result g r) \<in> set (scheduled s))"
    and len: "length (futures s') = length (futures s)"
  shows "consistent s'"
proof -
  from inv have valid: "\<forall>c < length (calls s). call_async_response (calls s ! c) < length (futures s)"
    and inj: "\<forall>c < length (calls s). \<forall>c' < length (calls s).
        call_async_response (calls s ! c) = call_async_response (calls s ! c') \<longrightarrow> c = c'"
    and sched: "\<forall>l f r. (l, Set_result f r) \<in> set (scheduled s) \<longrightarrow>
        (\<exists>c < length (calls s). call_internal_id (calls s ! c) = response_id r
           \<and> call_async_response (calls s ! c) = f)"
    and fin: "\<forall>c < length (calls s). \<forall>r.
        fut_state (futures s ! call_async_response (calls s ! c)) = FinishedResult r \<longrightarrow>
        response_id r = call_internal_id (calls s ! c)"
    and mc: "\<forall>c < length (calls s). must_cancel (calls s ! c) \<longrightarrow>
        fut_state (futures s ! call_async_response (calls s ! c)) \<noteq> Pending"
    unfolding consistent_def by blast+
  have 5: "response_id r = call_internal_id (calls s ! k)"
    if k: "k < length (calls s)"
      and f: "fut_state (futures s' ! call_async_response (calls s ! k)) = FinishedResult r" for k r
  proof -
    from valid k have g: "call_async_response (calls s ! k) < length (futures s)" by simp
    from res [OF g f] show ?thesis
    proof
      assume "fut_state (futures s ! call_async_response (calls s ! k)) = FinishedResult r"
      with fin k show ?thesis by simp
    next
      assume "\<exists>l. (l, Set_result (call_async_response (calls s ! k)) r) \<in> set (scheduled s)"
      with sched obtain k' where k': "k' < length (calls s)"
        "call_internal_id (calls s ! k') = response_id r"
        "call_async_response (calls s ! k') = call_async_response (calls s ! k)"
        by blast
      with inj k have "k' = k" by simp
      with k' show ?thesis by simp
    qed
  qed
  have 7: "fut_state (futures s' ! call_async_response (calls s ! k)) \<noteq> Pending"
    if k: "k < length (calls s)" and m: "must_cancel (calls s ! k)" for k
    using valid mc k m stay by simp
  from inv show ?thesis
    unfolding consistent_def c t len
    using 5 7 sch by (simp add: subset_iff) blast
qed


lemma run_callback_frame2:
  "calls (run_callback cb s) = calls s"
  "async_responses (run_callback cb s) = async_responses s"
  "scheduled (run_callback cb s) = scheduled s"
  "tasks (run_callback cb s) = tasks s"
  "responses (run_callback cb s) = responses s"
  "length (futures (run_callback cb s)) = length (futures s)"
  by (cases cb; simp add: set_result_def set_exception_def)+

lemma nth_update_read:
  "g < length xs \<Longrightarrow> (xs[f := x]) ! g = (if f = g then x else xs ! g)"
  by auto

lemma run_callback_future:
  assumes "g < length (futures s)"
  shows "fut_state (futures (run_callback cb s) ! g) =
           (if targets g cb \<and> fut_state (futures s ! g) = Pending
            then (case cb of Set_result f r \<Rightarrow> FinishedResult r
                           | Set_exception f e \<Rightarrow>
                               if e = StopIteration then Pending else FinishedException e)
            else fut_state (futures s ! g))"
  using assms
  by (cases cb) (auto simp add: set_result_def set_exception_def targets_def nth_update_read)

lemma consistent_run_scheduled:
  assumes inv: "consistent s"
  shows "consistent (run_scheduled l s)"
proof (cases "take_scheduled l (scheduled s)")
  case None
  with inv show ?thesis by (simp add: run_scheduled_def)
next
  case (Some p)
  obtain cb rest where p: "p = (cb, rest)" by (cases p)
  from take_scheduled_Some [OF Some [unfolded p]]
  have mem: "(l, cb) \<in> set (scheduled s)" and sub: "set rest \<subseteq> set (scheduled s)"
    by auto
  let ?s1 = "s\<lparr>scheduled := rest\<rparr>"
  have rs: "run_scheduled l s = run_callback cb ?s1"
    by (simp add: run_scheduled_def Some p)
  show ?thesis
    unfolding rs using inv
  proof (rule consistent_futures)
    show "set (scheduled (run_callback cb ?s1)) \<subseteq> set (scheduled s)"
      using sub by (simp add: run_callback_frame2)
    show "fut_state (futures (run_callback cb ?s1) ! g) \<noteq> Pending"
      if "g < length (futures s)" "fut_state (futures s ! g) \<noteq> Pending" for g
      using that by (simp add: run_callback_future)
    show "fut_state (futures s ! g) = FinishedResult r
               \<or> (\<exists>l. (l, Set_result g r) \<in> set (scheduled s))"
      if "g < length (futures s)" "fut_state (futures (run_callback cb ?s1) ! g) = FinishedResult r"
      for g r
      using that mem
      by (cases cb)
         (auto simp add: run_callback_future targets_def simp del: run_callback.simps
            split: if_splits)
  qed (simp_all add: run_callback_frame2)
qed

lemma consistent_relabel:
  assumes inv: "consistent s"
    and f: "futures s' = futures s" and sc: "scheduled s' = scheduled s"
    and len: "length (calls s') = length (calls s)"
    and same: "\<And>k. k < length (calls s) \<Longrightarrow>
        call_async_response (calls s' ! k) = call_async_response (calls s ! k)
      \<and> call_internal_id (calls s' ! k) = call_internal_id (calls s ! k)"
    and tab: "\<And>i g. async_responses s' i = Some g \<Longrightarrow>
        \<exists>k < length (calls s). status (calls s' ! k) = Waiting
          \<and> call_internal_id (calls s ! k) = i \<and> call_async_response (calls s ! k) = g"
    and ret: "\<And>k r. k < length (calls s) \<Longrightarrow> status (calls s' ! k) = CallReturned r \<Longrightarrow>
        response_id r = call_internal_id (calls s ! k)"
    and mc: "\<And>k. k < length (calls s) \<Longrightarrow> must_cancel (calls s' ! k) \<Longrightarrow>
        fut_state (futures s ! call_async_response (calls s ! k)) \<noteq> Pending"
  shows "consistent s'"
proof -
  from inv have valid: "\<forall>c < length (calls s). call_async_response (calls s ! c) < length (futures s)"
    and inj: "\<forall>c < length (calls s). \<forall>c' < length (calls s).
        call_async_response (calls s ! c) = call_async_response (calls s ! c') \<longrightarrow> c = c'"
    and sched: "\<forall>l f r. (l, Set_result f r) \<in> set (scheduled s) \<longrightarrow>
        (\<exists>c < length (calls s). call_internal_id (calls s ! c) = response_id r
           \<and> call_async_response (calls s ! c) = f)"
    and fin: "\<forall>c < length (calls s). \<forall>r.
        fut_state (futures s ! call_async_response (calls s ! c)) = FinishedResult r \<longrightarrow>
        response_id r = call_internal_id (calls s ! c)"
    unfolding consistent_def by blast+
  have 1: "\<forall>c < length (calls s'). call_async_response (calls s' ! c) < length (futures s')"
    using valid same by (simp add: len f)
  have 2: "\<forall>c < length (calls s'). \<forall>c' < length (calls s').
        call_async_response (calls s' ! c) = call_async_response (calls s' ! c') \<longrightarrow> c = c'"
    using inj same by (simp add: len)
  have 3: "\<forall>i g. async_responses s' i = Some g \<longrightarrow>
        (\<exists>c < length (calls s'). status (calls s' ! c) = Waiting
           \<and> call_internal_id (calls s' ! c) = i \<and> call_async_response (calls s' ! c) = g)"
  proof (intro allI impI)
    fix i g
    assume "async_responses s' i = Some g"
    from tab [OF this] obtain k where "k < length (calls s)" "status (calls s' ! k) = Waiting"
      "call_internal_id (calls s ! k) = i" "call_async_response (calls s ! k) = g"
      by blast
    with same [of k] have "k < length (calls s') \<and> status (calls s' ! k) = Waiting
           \<and> call_internal_id (calls s' ! k) = i \<and> call_async_response (calls s' ! k) = g"
      by (simp add: len)
    then show "\<exists>c < length (calls s'). status (calls s' ! c) = Waiting
           \<and> call_internal_id (calls s' ! c) = i \<and> call_async_response (calls s' ! c) = g"
      by blast
  qed
  have 4: "\<forall>l g r. (l, Set_result g r) \<in> set (scheduled s') \<longrightarrow>
        (\<exists>c < length (calls s'). call_internal_id (calls s' ! c) = response_id r
           \<and> call_async_response (calls s' ! c) = g)"
  proof (intro allI impI)
    fix l g r
    assume "(l, Set_result g r) \<in> set (scheduled s')"
    then have "(l, Set_result g r) \<in> set (scheduled s)" by (simp add: sc)
    with sched have "\<exists>c < length (calls s). call_internal_id (calls s ! c) = response_id r
           \<and> call_async_response (calls s ! c) = g"
      by blast
    then obtain k where "k < length (calls s)"
      "call_internal_id (calls s ! k) = response_id r" "call_async_response (calls s ! k) = g"
      by blast
    with same [of k] have "k < length (calls s')
           \<and> call_internal_id (calls s' ! k) = response_id r
           \<and> call_async_response (calls s' ! k) = g"
      by (simp add: len)
    then show "\<exists>c < length (calls s'). call_internal_id (calls s' ! c) = response_id r
           \<and> call_async_response (calls s' ! c) = g"
      by blast
  qed
  have 5: "\<forall>c < length (calls s'). \<forall>r.
        fut_state (futures s' ! call_async_response (calls s' ! c)) = FinishedResult r \<longrightarrow>
        response_id r = call_internal_id (calls s' ! c)"
    using fin same by (simp add: len f)
  have 6: "\<forall>c < length (calls s'). \<forall>r.
        status (calls s' ! c) = CallReturned r \<longrightarrow> response_id r = call_internal_id (calls s' ! c)"
    using ret same by (simp add: len)
  have 7: "\<forall>c < length (calls s').
        must_cancel (calls s' ! c) \<longrightarrow>
        fut_state (futures s' ! call_async_response (calls s' ! c)) \<noteq> Pending"
    using mc same by (simp add: len f)
  from 1 2 3 4 5 6 7 show ?thesis
    unfolding consistent_def by blast
qed

lemma consistent_cancel_call:
  assumes inv: "consistent s"
  shows "consistent (cancel_call c s)"
proof (cases "c < length (calls s) \<and> status (calls s ! c) = Waiting")
  case False
  with inv show ?thesis by (auto simp add: cancel_call_def)
next
  case True
  let ?f = "call_async_response (calls s ! c)"
  show ?thesis
  proof (cases "fut_state (futures s ! ?f) = Pending")
    case pending: True
    let ?s' = "s\<lparr>futures := (futures s)[?f := (futures s ! ?f)\<lparr>fut_state := Cancelled\<rparr>]\<rparr>"
    from True pending have eq: "cancel_call c s = ?s'"
      by (simp add: cancel_call_def Let_def)
    show ?thesis
      unfolding eq using inv
      by (rule consistent_futures) (auto simp add: nth_update_read split: if_splits)
  next
    case resolved: False
    let ?s' = "s\<lparr>calls := (calls s)[c := (calls s ! c)\<lparr>must_cancel := True\<rparr>]\<rparr>"
    from True resolved have eq: "cancel_call c s = ?s'"
      by (simp add: cancel_call_def Let_def)
    have nth: "call_async_response (calls ?s' ! k) = call_async_response (calls s ! k)"
      "call_internal_id (calls ?s' ! k) = call_internal_id (calls s ! k)"
      "status (calls ?s' ! k) = status (calls s ! k)"
      "must_cancel (calls ?s' ! k) = (k = c \<or> must_cancel (calls s ! k))"
      if "k < length (calls s)" for k
      using that by (auto simp add: nth_update_read)
    from inv have gar: "\<forall>i f. async_responses s i = Some f \<longrightarrow>
        (\<exists>c < length (calls s). status (calls s ! c) = Waiting
           \<and> call_internal_id (calls s ! c) = i \<and> call_async_response (calls s ! c) = f)"
      and ret: "\<forall>c < length (calls s). \<forall>r.
        status (calls s ! c) = CallReturned r \<longrightarrow> response_id r = call_internal_id (calls s ! c)"
      and mc: "\<forall>c < length (calls s). must_cancel (calls s ! c) \<longrightarrow>
        fut_state (futures s ! call_async_response (calls s ! c)) \<noteq> Pending"
      unfolding consistent_def by blast+
    show ?thesis
      unfolding eq using inv
    proof (rule consistent_relabel)
      show "\<exists>k < length (calls s). status (calls ?s' ! k) = Waiting
          \<and> call_internal_id (calls s ! k) = i \<and> call_async_response (calls s ! k) = g"
        if "async_responses ?s' i = Some g" for i g
      proof -
        from that have "async_responses s i = Some g" by simp
        with gar have "\<exists>c < length (calls s). status (calls s ! c) = Waiting
           \<and> call_internal_id (calls s ! c) = i \<and> call_async_response (calls s ! c) = g"
          by blast
        then obtain k where "k < length (calls s)" "status (calls s ! k) = Waiting"
          "call_internal_id (calls s ! k) = i" "call_async_response (calls s ! k) = g"
          by blast
        then show ?thesis using nth(3) [of k] by auto
      qed
      show "response_id r = call_internal_id (calls s ! k)"
        if "k < length (calls s)" "status (calls ?s' ! k) = CallReturned r" for k r
        using that ret nth(3) by simp
      show "fut_state (futures s ! call_async_response (calls s ! k)) \<noteq> Pending"
        if "k < length (calls s)" "must_cancel (calls ?s' ! k)" for k
        using that mc resolved nth(4) by auto
    qed (auto simp add: nth_update_read)
  qed
qed

lemma consistent_finally:
  assumes inv: "consistent s" and c: "c < length (calls s)"
    and res: "\<And>r. result = CallReturned r \<Longrightarrow>
       fut_state (futures s ! call_async_response (calls s ! c)) = FinishedResult r"
  shows "consistent (wait_response_finally c result s)"
proof -
  let ?s' = "wait_response_finally c result s"
  let ?key = "call_internal_id (calls s ! c)"
  have f: "futures ?s' = futures s" and sc: "scheduled ?s' = scheduled s"
    and len: "length (calls ?s') = length (calls s)"
    by (simp_all add: wait_response_finally_def Let_def split: option.splits)
  have nth: "call_async_response (calls ?s' ! k) = call_async_response (calls s ! k)"
    "call_internal_id (calls ?s' ! k) = call_internal_id (calls s ! k)"
    "must_cancel (calls ?s' ! k) = must_cancel (calls s ! k)"
    "k \<noteq> c \<Longrightarrow> status (calls ?s' ! k) = status (calls s ! k)"
    if "k < length (calls s)" for k
    using that
    by (auto simp add: wait_response_finally_def Let_def nth_update_read split: option.splits)
  have st: "status (calls ?s' ! c) = result \<or> (\<exists>e. status (calls ?s' ! c) = CallRaised e)"
    using c by (auto simp add: wait_response_finally_def Let_def split: option.splits)
  have tab: "async_responses s i = Some g \<and> i \<noteq> ?key" if "async_responses ?s' i = Some g" for i g
    using that
    by (auto simp add: wait_response_finally_def Let_def split: option.splits if_splits)
  from inv have fin: "\<forall>c < length (calls s). \<forall>r.
        fut_state (futures s ! call_async_response (calls s ! c)) = FinishedResult r \<longrightarrow>
        response_id r = call_internal_id (calls s ! c)"
    and ret: "\<forall>c < length (calls s). \<forall>r.
        status (calls s ! c) = CallReturned r \<longrightarrow> response_id r = call_internal_id (calls s ! c)"
    and gar: "\<forall>i f. async_responses s i = Some f \<longrightarrow>
        (\<exists>c < length (calls s). status (calls s ! c) = Waiting
           \<and> call_internal_id (calls s ! c) = i \<and> call_async_response (calls s ! c) = f)"
    and mc: "\<forall>c < length (calls s). must_cancel (calls s ! c) \<longrightarrow>
        fut_state (futures s ! call_async_response (calls s ! c)) \<noteq> Pending"
    unfolding consistent_def by blast+
  from inv f sc len show ?thesis
  proof (rule consistent_relabel)
    show "\<exists>k < length (calls s). status (calls ?s' ! k) = Waiting
          \<and> call_internal_id (calls s ! k) = i \<and> call_async_response (calls s ! k) = g"
      if "async_responses ?s' i = Some g" for i g
    proof -
      from tab [OF that] gar obtain k where k: "k < length (calls s)" "status (calls s ! k) = Waiting"
        "call_internal_id (calls s ! k) = i" "call_async_response (calls s ! k) = g"
        and ne: "i \<noteq> ?key"
        by blast
      then have "k \<noteq> c" by auto
      with k nth(4) [of k] show ?thesis by auto
    qed
    show "response_id r = call_internal_id (calls s ! k)"
      if k: "k < length (calls s)" and r: "status (calls ?s' ! k) = CallReturned r" for k r
    proof (cases "k = c")
      case True
      with st r have "result = CallReturned r" by auto
      from res [OF this] fin c True show ?thesis by simp
    next
      case False
      with k r ret nth(4) [of k] show ?thesis by simp
    qed
    show "fut_state (futures s ! call_async_response (calls s ! k)) \<noteq> Pending"
      if "k < length (calls s)" "must_cancel (calls ?s' ! k)" for k
      using that mc nth(3) by simp
  qed (simp_all add: nth)
qed

lemma consistent_wait_response_resume:
  assumes "consistent s"
  shows "consistent (wait_response_resume c s)"
  using assms
  by (auto simp add: wait_response_resume_def intro!: consistent_finally
      split: future_state.splits)

lemma consistent_step: "consistent s \<Longrightarrow> consistent (step e s)"
  by (cases e)
     (simp_all add: consistent_start consistent_dispatch consistent_dispatch_submit
        consistent_dispatch_register consistent_put
        consistent_process_responses consistent_task_done consistent_run_scheduled
        consistent_wait_response_resume consistent_cancel_call consistent_terminate_queue
        consistent_stop_shutdown del: step.simps(5))

lemma consistent_run: "consistent s \<Longrightarrow> consistent (run es s)"
  by (induction es arbitrary: s) (simp_all add: consistent_step del: step.simps)


lemma step_calls_frame:
  assumes "\<forall>l n r. e \<noteq> Dispatch l n r" "\<forall>l n r. e \<noteq> DispatchRegister l n r"
    "\<forall>c. e \<noteq> Resume c" "\<forall>c. e \<noteq> Cancel c"
  shows "calls (step e s) = calls s" and "async_responses (step e s) = async_responses s"
  using assms
  by (cases e; simp add: event_defs run_callback_frame2 dispatch_submit_frame Let_def
        split: event_splits)+

lemma own_future_frame:
  "own_future s \<Longrightarrow> calls s' = calls s \<Longrightarrow> async_responses s' = async_responses s \<Longrightarrow>
   own_future s'"
  by (simp add: own_future_def)

lemma waiting_idsI:
  "c < length (calls s) \<Longrightarrow> status (calls s ! c) = Waiting \<Longrightarrow>
   call_internal_id (calls s ! c) \<in> waiting_ids s"
  unfolding waiting_ids_def by (metis (mono_tags, lifting) image_eqI mem_Collect_eq nth_mem)

lemma own_future_dispatch_register:
  assumes own: "own_future s" and fresh: "request_id request_message \<notin> waiting_ids s"
  shows "own_future (snd (dispatch_register loop n_tasks request_message s))"
proof -
  let ?s' = "snd (dispatch_register loop n_tasks request_message s)"
  note eff = dispatch_register_effect [of loop n_tasks request_message s]
  have "async_responses ?s' (call_internal_id (calls ?s' ! c))
          = Some (call_async_response (calls ?s' ! c))"
    if c: "c < length (calls ?s')" and w: "status (calls ?s' ! c) = Waiting" for c
  proof (cases "c < length (calls s)")
    case True
    then have old: "calls ?s' ! c = calls s ! c"
      by (simp add: eff nth_append)
    with w True fresh have "call_internal_id (calls s ! c) \<noteq> request_id request_message"
      using waiting_idsI [of c s] by auto
    moreover from own True w old have "async_responses s (call_internal_id (calls s ! c))
          = Some (call_async_response (calls s ! c))"
      by (simp add: own_future_def)
    ultimately show ?thesis
      by (simp add: old eff(4))
  next
    case False
    with c have "c = length (calls s)" by (simp add: eff)
    then show ?thesis by (simp add: eff)
  qed
  then show ?thesis
    by (simp add: own_future_def)
qed

lemma own_future_dispatch_submit:
  "own_future s \<Longrightarrow> own_future (snd (dispatch_submit request_message s))"
  by (erule own_future_frame) (simp_all add: dispatch_submit_frame)

lemma own_future_dispatch:
  assumes own: "own_future s" and fresh: "request_id request_message \<notin> waiting_ids s"
  shows "own_future (snd (dispatch loop n_tasks request_message s))"
proof (cases "dispatch_submit request_message s")
  case (Pair res s1)
  have s1: "s1 = snd (dispatch_submit request_message s)" using Pair by simp
  have own1: "own_future s1"
    unfolding s1 using own by (rule own_future_dispatch_submit)
  have "waiting_ids s1 = waiting_ids s"
    by (simp add: s1 waiting_ids_def dispatch_submit_frame)
  with fresh have fresh1: "request_id request_message \<notin> waiting_ids s1" by simp
  from Pair own1 own_future_dispatch_register [OF own1 fresh1] show ?thesis
    by (cases res) (simp_all add: dispatch_def)
qed

lemma own_future_cancel: "own_future s \<Longrightarrow> own_future (cancel_call c s)"
  by (auto simp add: own_future_def cancel_call_def Let_def nth_update_read)

lemma wait_response_resume_cases:
  "wait_response_resume c s = s
 \<or> (c < length (calls s) \<and> status (calls s ! c) = Waiting
      \<and> (\<exists>result. result \<noteq> Waiting
            \<and> wait_response_resume c s = wait_response_finally c result s))"
  by (auto simp add: wait_response_resume_def split: future_state.splits)

lemma own_future_resume:
  assumes inv: "consistent s" and own: "own_future s"
  shows "own_future (wait_response_resume c s)"
proof (cases "wait_response_resume c s = s")
  case True
  with own show ?thesis by simp
next
  case False
  with wait_response_resume_cases [of c s] obtain result
    where c: "c < length (calls s)" and w: "status (calls s ! c) = Waiting"
      and nw: "result \<noteq> Waiting"
      and eq: "wait_response_resume c s = wait_response_finally c result s"
    by blast
  let ?key = "call_internal_id (calls s ! c)"
  from own c w have entry: "async_responses s ?key = Some (call_async_response (calls s ! c))"
    by (simp add: own_future_def)
  let ?s' = "wait_response_finally c result s"
  have calls': "calls ?s' = (calls s)[c := (calls s ! c)\<lparr>status := result\<rparr>]"
    and tab': "async_responses ?s' = (async_responses s)(?key := None)"
    using entry by (simp_all add: wait_response_finally_def Let_def)
  from inv have inj: "\<forall>c < length (calls s). \<forall>c' < length (calls s).
        call_async_response (calls s ! c) = call_async_response (calls s ! c') \<longrightarrow> c = c'"
    unfolding consistent_def by blast
  have "async_responses ?s' (call_internal_id (calls ?s' ! k))
            = Some (call_async_response (calls ?s' ! k))"
    if k: "k < length (calls ?s')" and wk: "status (calls ?s' ! k) = Waiting" for k
  proof -
    from k have k': "k < length (calls s)" by (simp add: calls')
    show ?thesis
    proof (cases "k = c")
      case True
      with nw wk c show ?thesis by (simp add: calls')
    next
      case ne: False
      with k' have same: "calls ?s' ! k = calls s ! k" by (simp add: calls')
      with wk own k' have e: "async_responses s (call_internal_id (calls s ! k))
            = Some (call_async_response (calls s ! k))"
        by (simp add: own_future_def)
      have "call_internal_id (calls s ! k) \<noteq> ?key"
      proof
        assume "call_internal_id (calls s ! k) = ?key"
        with e entry have "call_async_response (calls s ! k) = call_async_response (calls s ! c)"
          by simp
        with inj k' c have "k = c" by simp
        with ne show False by simp
      qed
      with e show ?thesis by (simp add: same tab')
    qed
  qed
  then show ?thesis
    unfolding eq own_future_def by blast
qed

lemma own_future_step:
  assumes "consistent s" "own_future s" "fresh_event s e"
  shows "own_future (step e s)"
proof (cases "(\<exists>l n r. e = Dispatch l n r) \<or> (\<exists>l n r. e = DispatchRegister l n r)
              \<or> (\<exists>c. e = Resume c) \<or> (\<exists>c. e = Cancel c)")
  case False
  with assms(2) show ?thesis
    by (elim own_future_frame) (simp_all add: step_calls_frame)
next
  case True
  then show ?thesis
  proof (elim disjE exE)
    fix l n r assume "e = Dispatch l n r"
    with assms show ?thesis by (simp add: own_future_dispatch)
  next
    fix l n r assume "e = DispatchRegister l n r"
    with assms show ?thesis by (simp add: own_future_dispatch_register)
  next
    fix c assume "e = Resume c"
    with assms show ?thesis by (simp add: own_future_resume)
  next
    fix c assume "e = Cancel c"
    with assms show ?thesis by (simp add: own_future_cancel)
  qed
qed

lemma own_future_run:
  "consistent s \<Longrightarrow> own_future s \<Longrightarrow> fresh_ids s es \<Longrightarrow> own_future (run es s)"
proof (induction es arbitrary: s)
  case Nil
  then show ?case by simp
next
  case (Cons e es)
  from Cons.prems have "consistent (step e s)" "own_future (step e s)" "fresh_ids (step e s) es"
    by (simp_all add: consistent_step own_future_step del: step.simps)
  then show ?case
    by (simp add: Cons.IH del: step.simps)
qed

lemma own_future_init: "own_future (Dispatcher_init ws q)"
  by (simp add: own_future_def Dispatcher_init_def)


lemma run_append: "run (es @ es') s = run es' (run es s)"
  by (induction es arbitrary: s) simp_all


lemma run_callback_resolve: "futures (run_callback cb s) = resolve cb (futures s)"
  by (cases cb) (simp_all add: set_result_def set_exception_def)



lemma resolve_other:
  "\<not> targets g cb \<Longrightarrow> resolve cb fs ! g = fs ! g"
  by (cases cb) (auto simp add: targets_def)

lemma resolve_finished:
  assumes "fut_state (fs ! g) \<noteq> Pending"
  shows "resolve cb fs ! g = fs ! g"
proof (cases "targets g cb")
  case True
  with assms show ?thesis by (cases cb) (simp_all add: targets_def)
next
  case False
  then show ?thesis by (rule resolve_other)
qed




lemma process_response_known:
  assumes "async_responses s (response_id r) = Some f"
  shows "fst (process_response r s) = Inr ()"
  using assms by (simp add: process_response_def Let_def split: option.splits)

lemmas eval_defs =
  Dispatcher_init_def cycle_init_def cycle_next_def dispatch_def dispatch_submit_def
  dispatch_register_def get_worker_def workers_queue_monitor_def workers_processes_monitor_def
  worker_send_request_def send_request_def qsize_def wait_response_begin_def exception_def
  stop_def Let_def

lemma reachable_invariants:
  assumes "fresh_ids (Dispatcher_init ws q) es"
  shows "consistent (run es (Dispatcher_init ws q))"
    and "own_future (run es (Dispatcher_init ws q))"
  using assms
  by (simp_all add: consistent_run consistent_init own_future_run own_future_init)

lemma cancel_then_resume:
  assumes inv: "consistent s" and own: "own_future s"
    and c: "c < length (calls s)" and w: "status (calls s ! c) = Waiting"
  shows "async_responses (run [Cancel c, Resume c] s) (call_internal_id (calls s ! c)) = None"
    and "status (calls (run [Cancel c, Resume c] s) ! c) = CallRaised CancelledError"
proof -
  let ?f = "call_async_response (calls s ! c)"
  let ?key = "call_internal_id (calls s ! c)"
  let ?s1 = "cancel_call c s"
  from inv c have valid: "?f < length (futures s)"
    unfolding consistent_def by blast
  from own c w have entry: "async_responses s ?key = Some ?f"
    by (simp add: own_future_def)
  have tab1: "async_responses ?s1 = async_responses s"
    by (simp add: cancel_call_def Let_def)
  have len1: "length (calls ?s1) = length (calls s)"
    by (simp add: cancel_call_def Let_def)
  have call1: "call_internal_id (calls ?s1 ! c) = ?key" "call_async_response (calls ?s1 ! c) = ?f"
    "status (calls ?s1 ! c) = Waiting"
    using c w by (simp_all add: cancel_call_def Let_def)
  have "wait_response_resume c ?s1 = wait_response_finally c (CallRaised CancelledError) ?s1"
  proof (cases "fut_state (futures s ! ?f) = Pending")
    case True
    with c w valid have "fut_state (futures ?s1 ! ?f) = Cancelled"
      by (simp add: cancel_call_def Let_def)
    with c call1 len1 show ?thesis
      by (simp add: wait_response_resume_def)
  next
    case False
    with c w have "must_cancel (calls ?s1 ! c)" "futures ?s1 = futures s"
      by (simp_all add: cancel_call_def Let_def)
    with False c call1 len1 show ?thesis
      by (cases "fut_state (futures s ! ?f)") (simp_all add: wait_response_resume_def)
  qed
  moreover from entry have "wait_response_finally c (CallRaised CancelledError) ?s1
     = ?s1\<lparr>async_responses := (async_responses ?s1)(?key := None),
            calls := (calls ?s1)[c := (calls ?s1 ! c)\<lparr>status := CallRaised CancelledError\<rparr>]\<rparr>"
    by (simp add: wait_response_finally_def Let_def call1 tab1)
  ultimately have eq: "run [Cancel c, Resume c] s
     = ?s1\<lparr>async_responses := (async_responses ?s1)(?key := None),
            calls := (calls ?s1)[c := (calls ?s1 ! c)\<lparr>status := CallRaised CancelledError\<rparr>]\<rparr>"
    by simp
  show "async_responses (run [Cancel c, Resume c] s) ?key = None"
    unfolding eq by simp
  from c len1 show "status (calls (run [Cancel c, Resume c] s) ! c) = CallRaised CancelledError"
    unfolding eq by simp
qed

lemma dispatch_submit_requests:
  assumes ws: "ws \<noteq> []" and d: "distinct (map fst ws)" and inv: "round_robin_inv ws s"
  shows "requests (snd (workers (snd (dispatch_submit request_message s)) !
                    (length (queue_request_count s) mod length ws)))
         = requests (snd (workers s ! (length (queue_request_count s) mod length ws)))
           @ [request_message]"
proof -
  let ?i = "length (queue_request_count s) mod length ws"
  let ?pid = "fst (ws ! ?i)"
  let ?s' = "snd (dispatch_submit request_message s)"
  from ws have i: "?i < length ws" by simp
  from inv have keys: "map fst (workers s) = map fst ws"
    by (simp add: round_robin_inv_def)
  then have len: "length (workers s) = length ws"
    by (metis length_map)
  from keys i len have fi: "fst (workers s ! ?i) = ?pid"
    by (metis nth_map)
  note gw = get_worker_round_robin [OF ws d inv]
  have w': "workers ?s' = map (\<lambda>(pid, w). if pid = ?pid
                 then (pid, send_request w request_message) else (pid, w)) (workers s)"
    by (simp add: dispatch_submit_def gw workers_queue_monitor_def
        worker_send_request_def Let_def)
  from i len fi have "snd (workers ?s' ! ?i) = send_request (snd (workers s ! ?i)) request_message"
    by (cases "workers s ! ?i") (auto simp add: w')
  then show ?thesis
    by (simp add: send_request_def)
qed

lemma step_futures_frame:
  assumes "\<forall>l n r. e \<noteq> Dispatch l n r" "\<forall>l n r. e \<noteq> DispatchRegister l n r"
    "\<forall>l. e \<noteq> RunScheduled l" "\<forall>c. e \<noteq> Cancel c"
  shows "futures (step e s) = futures s"
  using assms
  by (cases e; simp add: event_defs dispatch_submit_frame Let_def split: event_splits)

lemma dispatch_futures:
  "futures (snd (dispatch loop n_tasks request_message s)) =
     (case fst (dispatch_submit request_message s) of
        Inl e \<Rightarrow> futures s
      | Inr u \<Rightarrow> futures s @ [\<lparr> fut_loop = loop, fut_state = Pending \<rparr>])"
proof (cases "dispatch_submit request_message s")
  case (Pair res s1)
  then have "s1 = snd (dispatch_submit request_message s)" by simp
  then have "futures s1 = futures s" by (simp add: dispatch_submit_frame)
  with Pair show ?thesis
    by (cases res) (simp_all add: dispatch_def dispatch_register_effect)
qed

lemma future_write_once:
  assumes g: "g < length (futures s)" and fin: "fut_state (futures s ! g) \<noteq> Pending"
  shows "futures (step e s) ! g = futures s ! g"
proof (cases "(\<exists>l n r. e = Dispatch l n r) \<or> (\<exists>l n r. e = DispatchRegister l n r)
              \<or> (\<exists>l. e = RunScheduled l) \<or> (\<exists>c. e = Cancel c)")
  case False
  then have "futures (step e s) = futures s"
    by (intro step_futures_frame) auto
  then show ?thesis by simp
next
  case True
  then show ?thesis
  proof (elim disjE exE)
    fix loop n_tasks request_message
    assume e: "e = Dispatch loop n_tasks request_message"
    have "futures (snd (dispatch loop n_tasks request_message s)) ! g = futures s ! g"
      using g by (auto simp add: dispatch_futures nth_append split: sum.splits)
    with e show ?thesis by simp
  next
    fix loop n_tasks request_message
    assume e: "e = DispatchRegister loop n_tasks request_message"
    have "futures (snd (dispatch_register loop n_tasks request_message s)) ! g = futures s ! g"
      using g by (simp add: dispatch_register_effect nth_append)
    with e show ?thesis by simp
  next
    fix l assume e: "e = RunScheduled l"
    show ?thesis
    proof (cases "take_scheduled l (scheduled s)")
      case None
      with e show ?thesis by (simp add: run_scheduled_def)
    next
      case (Some p)
      obtain cb rest where "p = (cb, rest)" by (cases p)
      with Some e fin show ?thesis
        by (simp add: run_scheduled_def run_callback_resolve resolve_finished)
    qed
  next
    fix c assume e: "e = Cancel c"
    show ?thesis
    proof (cases "call_async_response (calls s ! c) = g")
      case True
      with e fin show ?thesis by (simp add: cancel_call_def Let_def)
    next
      case False
      with e show ?thesis by (simp add: cancel_call_def Let_def)
    qed
  qed
qed

lemma resume_removes_entry:
  assumes "c < length (calls s)" "status (calls s ! c) = Waiting"
    and "fut_state (futures s ! call_async_response (calls s ! c)) \<noteq> Pending"
  shows "async_responses (wait_response_resume c s) (call_internal_id (calls s ! c)) = None"
    and "status (calls (wait_response_resume c s) ! c) \<noteq> Waiting"
  using assms
  by (auto simp add: wait_response_resume_def wait_response_finally_def Let_def
      split: future_state.splits option.splits)








section \<open>Dispatcher: the claims\<close>

text \<open>
  C3. With at least one worker, the \<open>k\<close>-th call of \<open>dispatch\<close> (counting from 0) goes
  to the worker at position \<open>k mod N\<close> of the registration order, whatever else happens
  in between and whatever the workers' queues hold: the labels of the queue-depth
  observations, one per call, are the keys repeated with period \<open>N\<close>. After \<open>M\<close> calls
  worker \<open>j\<close> has received \<open>M div N\<close> requests, and one more if \<open>j < M mod N\<close>: the floor
  or the ceiling of \<open>M / N\<close>.
\<close>

theorem round_robin_fairness:
  assumes "ws \<noteq> []" and "distinct (map fst ws)"
  shows "map fst (queue_request_count (run es (Dispatcher_init ws q)))
           = map (\<lambda>k. fst (ws ! (k mod length ws))) [0..<dispatch_count es]
       \<and> (\<forall>j < length ws.
            qsize (snd (workers (run es (Dispatcher_init ws q)) ! j))
              = qsize (snd (ws ! j)) + dispatch_count es div length ws
                + (if j < dispatch_count es mod length ws then 1 else 0))
       \<and> (\<forall>j < length ws.
            qsize (snd (workers (run es (Dispatcher_init ws q)) ! j))
              = qsize (snd (ws ! j)) + dispatch_count es div length ws
          \<or> qsize (snd (workers (run es (Dispatcher_init ws q)) ! j))
              = qsize (snd (ws ! j)) + (dispatch_count es + length ws - 1) div length ws)"
proof -
  let ?s = "run es (Dispatcher_init ws q)"
  let ?n = "length ws"
  let ?m = "dispatch_count es"
  from run_round_robin [OF assms init_round_robin]
  have inv: "round_robin_inv ws ?s" and len: "length (queue_request_count ?s) = ?m"
    by (simp_all add: Dispatcher_init_def)
  from inv len have a: "map fst (queue_request_count ?s)
           = map (\<lambda>k. fst (ws ! (k mod ?n))) [0..<?m]"
    by (simp add: round_robin_inv_def)
  have b: "qsize (snd (workers ?s ! j)) = qsize (snd (ws ! j)) + ?m div ?n
                + (if j < ?m mod ?n then 1 else 0)" if "j < ?n" for j
    using inv len that by (simp add: round_robin_inv_def count_mod)
  from assms(1) have "0 < ?n" by simp
  then have ceil: "(?m + ?n - 1) div ?n = ?m div ?n + (if ?m mod ?n = 0 then 0 else 1)"
    by (rule ceil_div)
  have c: "qsize (snd (workers ?s ! j)) = qsize (snd (ws ! j)) + ?m div ?n
          \<or> qsize (snd (workers ?s ! j)) = qsize (snd (ws ! j)) + (?m + ?n - 1) div ?n"
    if "j < ?n" for j
    using b [OF that] ceil by (auto split: if_splits)
  from a b c show ?thesis by blast
qed

theorem round_robin_fairness_witness:
  "map fst (queue_request_count
     (run [Dispatch 0 1 \<lparr>request_id = ''r0'', request_payload = (0::nat)\<rparr>,
           Dispatch 0 1 \<lparr>request_id = ''r1'', request_payload = 0\<rparr>,
           Put \<lparr>response_id = ''r0'', response_body = Success 42\<rparr>,
           Dispatch 0 1 \<lparr>request_id = ''r2'', request_payload = 0\<rparr>,
           Dispatch 0 1 \<lparr>request_id = ''r3'', request_payload = 0\<rparr>]
        (Dispatcher_init [(10, \<lparr>requests = []\<rparr>), (11, \<lparr>requests = []\<rparr>), (12, \<lparr>requests = []\<rparr>)]
           \<lparr>items = [], is_closed = False\<rparr>)))
     = [10, 11, 12, 10]"
  using round_robin_fairness
    [of "[(10, \<lparr>requests = []\<rparr>), (11, \<lparr>requests = []\<rparr>), (12, \<lparr>requests = []\<rparr>)]"
        "[Dispatch 0 1 \<lparr>request_id = ''r0'', request_payload = (0::nat)\<rparr>,
           Dispatch 0 1 \<lparr>request_id = ''r1'', request_payload = 0\<rparr>,
           Put \<lparr>response_id = ''r0'', response_body = Success 42\<rparr>,
           Dispatch 0 1 \<lparr>request_id = ''r2'', request_payload = 0\<rparr>,
           Dispatch 0 1 \<lparr>request_id = ''r3'', request_payload = 0\<rparr>]"
        "\<lparr>items = [], is_closed = False\<rparr>"]
  by (simp add: dispatch_count_def upt_rec)

text \<open>
  C2. A response whose correlation id has no entry in the table is not dropped in
  silence: the lookup in \<open>_process_response\<close> raises \<open>KeyError\<close> and changes nothing,
  and the turn of the loop that read the response ends the task of the loop with that
  exception. The done-callback then logs the crash and starts a new loop. Through all
  of this the table, the futures, the suspended calls and the scheduled resolutions
  stay as they were.
\<close>

theorem unknown_id_raises_key_error:
  assumes "async_responses s (response_id r) = None"
  shows "process_response r s = (Inl (KeyError (StrKey (response_id r))), s)
   \<and> (t < length (tasks s) \<and> tasks s ! t = Running \<and> active s \<and> \<not> executor_shutdown s
        \<and> \<not> is_closed (responses s) \<and> items (responses s) = Message r # rest \<longrightarrow>
        step (LoopTurn t) s
          = s\<lparr>responses := (responses s)\<lparr>items := rest\<rparr>,
              tasks := (tasks s)[t := Done (Crashed (KeyError (StrKey (response_id r))))]\<rparr>
      \<and> async_responses (run [LoopTurn t, LoopDone t] s) = async_responses s
      \<and> futures (run [LoopTurn t, LoopDone t] s) = futures s
      \<and> calls (run [LoopTurn t, LoopDone t] s) = calls s
      \<and> scheduled (run [LoopTurn t, LoopDone t] s) = scheduled s
      \<and> logger (run [LoopTurn t, LoopDone t] s)
          = logger s @ [''Response processing loop crashed. Restarting the loop...'']
      \<and> tasks (run [LoopTurn t, LoopDone t] s)
          = (tasks s)[t := Reaped (Crashed (KeyError (StrKey (response_id r))))] @ [Running]
      \<and> process_responses_task (run [LoopTurn t, LoopDone t] s) = Some (length (tasks s))
      \<and> active (run [LoopTurn t, LoopDone t] s))"
proof -
  from assms have pr: "process_response r s = (Inl (KeyError (StrKey (response_id r))), s)"
    by (simp add: process_response_def)
  have pr': "process_response r (s\<lparr>responses := (responses s)\<lparr>items := rest\<rparr>\<rparr>)
      = (Inl (KeyError (StrKey (response_id r))), s\<lparr>responses := (responses s)\<lparr>items := rest\<rparr>\<rparr>)"
    using assms by (simp add: process_response_def)
  have turn: "process_responses t s
          = s\<lparr>responses := (responses s)\<lparr>items := rest\<rparr>,
              tasks := (tasks s)[t := Done (Crashed (KeyError (StrKey (response_id r))))]\<rparr>"
    if "t < length (tasks s)" "tasks s ! t = Running" "active s" "\<not> executor_shutdown s"
      "\<not> is_closed (responses s)" "items (responses s) = Message r # rest"
    using that by (simp add: process_responses_def pr' finish_def)
  show ?thesis
    using pr turn
    by (auto simp add: task_done_def process_responses_cb_def start_def)
qed

theorem unknown_id_raises_key_error_witness:
  "async_responses (run [LoopTurn 0, LoopDone 0]
      (run [Start, Dispatch 0 1 \<lparr>request_id = ''r0'', request_payload = (0::nat)\<rparr>, Dispatch 0 1 \<lparr>request_id = ''r1'', request_payload = (0::nat)\<rparr>, Put \<lparr>response_id = ''r9'', response_body = Success (0::nat)\<rparr>] (Dispatcher_init [(7, \<lparr>requests = []\<rparr>)] \<lparr>items = [], is_closed = False\<rparr>))) ''r0'' = Some 0
   \<and> async_responses (run [LoopTurn 0, LoopDone 0]
      (run [Start, Dispatch 0 1 \<lparr>request_id = ''r0'', request_payload = (0::nat)\<rparr>, Dispatch 0 1 \<lparr>request_id = ''r1'', request_payload = (0::nat)\<rparr>, Put \<lparr>response_id = ''r9'', response_body = Success (0::nat)\<rparr>] (Dispatcher_init [(7, \<lparr>requests = []\<rparr>)] \<lparr>items = [], is_closed = False\<rparr>))) ''r1'' = Some 1
   \<and> map status (calls (run [LoopTurn 0, LoopDone 0]
      (run [Start, Dispatch 0 1 \<lparr>request_id = ''r0'', request_payload = (0::nat)\<rparr>, Dispatch 0 1 \<lparr>request_id = ''r1'', request_payload = (0::nat)\<rparr>, Put \<lparr>response_id = ''r9'', response_body = Success (0::nat)\<rparr>] (Dispatcher_init [(7, \<lparr>requests = []\<rparr>)] \<lparr>items = [], is_closed = False\<rparr>)))) = [Waiting, Waiting]
   \<and> map fut_state (futures (run [LoopTurn 0, LoopDone 0]
      (run [Start, Dispatch 0 1 \<lparr>request_id = ''r0'', request_payload = (0::nat)\<rparr>, Dispatch 0 1 \<lparr>request_id = ''r1'', request_payload = (0::nat)\<rparr>, Put \<lparr>response_id = ''r9'', response_body = Success (0::nat)\<rparr>] (Dispatcher_init [(7, \<lparr>requests = []\<rparr>)] \<lparr>items = [], is_closed = False\<rparr>)))) = [Pending, Pending]
   \<and> logger (run [LoopTurn 0, LoopDone 0]
      (run [Start, Dispatch 0 1 \<lparr>request_id = ''r0'', request_payload = (0::nat)\<rparr>, Dispatch 0 1 \<lparr>request_id = ''r1'', request_payload = (0::nat)\<rparr>, Put \<lparr>response_id = ''r9'', response_body = Success (0::nat)\<rparr>] (Dispatcher_init [(7, \<lparr>requests = []\<rparr>)] \<lparr>items = [], is_closed = False\<rparr>)))
     = [''Response processing loop crashed. Restarting the loop...'']
   \<and> tasks (run [LoopTurn 0, LoopDone 0]
      (run [Start, Dispatch 0 1 \<lparr>request_id = ''r0'', request_payload = (0::nat)\<rparr>, Dispatch 0 1 \<lparr>request_id = ''r1'', request_payload = (0::nat)\<rparr>, Put \<lparr>response_id = ''r9'', response_body = Success (0::nat)\<rparr>] (Dispatcher_init [(7, \<lparr>requests = []\<rparr>)] \<lparr>items = [], is_closed = False\<rparr>)))
     = [Reaped (Crashed (KeyError (StrKey ''r9''))), Running]"
  using unknown_id_raises_key_error
    [of "run [Start, Dispatch 0 1 \<lparr>request_id = ''r0'', request_payload = (0::nat)\<rparr>, Dispatch 0 1 \<lparr>request_id = ''r1'', request_payload = (0::nat)\<rparr>, Put \<lparr>response_id = ''r9'', response_body = Success (0::nat)\<rparr>] (Dispatcher_init [(7, \<lparr>requests = []\<rparr>)] \<lparr>items = [], is_closed = False\<rparr>)"
        "\<lparr>response_id = ''r9'', response_body = Success (0::nat)\<rparr>" 0 "[]"]
  by (simp add: eval_defs event_defs)

theorem unknown_id_raises_key_error_counterexample:
  "fst (process_response \<lparr>response_id = ''r9'', response_body = Success (0::nat)\<rparr> (run [Start, Dispatch 0 1 \<lparr>request_id = ''r0'', request_payload = (0::nat)\<rparr>] (Dispatcher_init [(7, \<lparr>requests = []\<rparr>)] \<lparr>items = [], is_closed = False\<rparr>)))
     = Inl (KeyError (StrKey ''r9''))
   \<and> tasks (run [Start, Dispatch 0 1 \<lparr>request_id = ''r0'', request_payload = (0::nat)\<rparr>, Put \<lparr>response_id = ''r9'', response_body = Success (0::nat)\<rparr>, LoopTurn 0] (Dispatcher_init [(7, \<lparr>requests = []\<rparr>)] \<lparr>items = [], is_closed = False\<rparr>))
     = [Done (Crashed (KeyError (StrKey ''r9'')))]"
  by (simp add: eval_defs event_defs)

text \<open>
  C8. A call of \<open>dispatch\<close> that is waiting and whose caller is cancelled from outside
  (before a response has arrived, or after) ends with \<open>CancelledError\<close>, and when it has
  ended the table holds no entry for its correlation id: the \<open>finally\<close> clause of
  \<open>_wait_response\<close> has deleted it. This holds in every state the dispatcher reaches
  while the ids of the calls that wait together are distinct.
\<close>

theorem cancelled_call_entry_removed:
  assumes "fresh_ids (Dispatcher_init ws q) es"
    and "c < length (calls (run es (Dispatcher_init ws q)))"
    and "status (calls (run es (Dispatcher_init ws q)) ! c) = Waiting"
  shows "async_responses (run (es @ [Cancel c, Resume c]) (Dispatcher_init ws q))
           (call_internal_id (calls (run es (Dispatcher_init ws q)) ! c)) = None
       \<and> status (calls (run (es @ [Cancel c, Resume c]) (Dispatcher_init ws q)) ! c)
           = CallRaised CancelledError"
  using cancel_then_resume [OF reachable_invariants [OF assms(1)] assms(2,3)]
  by (simp add: run_append)

theorem cancelled_call_entry_removed_witness:
  "async_responses
     (run ([Start, Dispatch 0 1 \<lparr>request_id = ''r0'', request_payload = (0::nat)\<rparr>,
            Dispatch 0 1 \<lparr>request_id = ''r1'', request_payload = 0\<rparr>] @ [Cancel 0, Resume 0])
        (Dispatcher_init [(7, \<lparr>requests = []\<rparr>)] \<lparr>items = [], is_closed = False\<rparr>)) ''r0'' = None
   \<and> status (calls
     (run ([Start, Dispatch 0 1 \<lparr>request_id = ''r0'', request_payload = (0::nat)\<rparr>,
            Dispatch 0 1 \<lparr>request_id = ''r1'', request_payload = 0\<rparr>] @ [Cancel 0, Resume 0])
        (Dispatcher_init [(7, \<lparr>requests = []\<rparr>)] \<lparr>items = [], is_closed = False\<rparr>)) ! 0)
     = CallRaised CancelledError"
  using cancelled_call_entry_removed
    [of "[(7, \<lparr>requests = []\<rparr>)]" "\<lparr>items = [], is_closed = False\<rparr>"
        "[Start, Dispatch 0 1 \<lparr>request_id = ''r0'', request_payload = (0::nat)\<rparr>,
            Dispatch 0 1 \<lparr>request_id = ''r1'', request_payload = 0\<rparr>]" 0]
  by (simp add: eval_defs event_defs waiting_ids_def)







text \<open>
  C7. The order of the first half is the other way round. \<open>dispatch\<close> submits the
  request to the selected worker first, with the table and the futures untouched, and
  creates and registers the future for the correlation id after that; a response read
  in between finds no entry. The rest holds in every state the dispatcher reaches, for
  callers on its own loop and on other threads: the entry is removed when the call
  resumes and consumes its result; every entry of the table is the future of a call
  that is still waiting (the table holds no garbage); and a future that has been
  resolved is never changed again by any event (a second resolution raises
  \<open>InvalidStateError\<close> in its callback).
\<close>

theorem pending_operation_lifecycle:
  fixes ws :: "(int \<times> 'p Worker) list" and q :: "'p Queue" and es :: "'p event list"
    and S :: "'p Dispatcher"
  defines "S \<equiv> run es (Dispatcher_init ws q)"
  assumes "ws \<noteq> []" and "distinct (map fst ws)"
  shows "fst (dispatch_submit request_message S) = Inr ()
       \<and> requests (snd (workers (snd (dispatch_submit request_message S)) !
                    (dispatch_count es mod length ws)))
           = requests (snd (workers S ! (dispatch_count es mod length ws))) @ [request_message]
       \<and> async_responses (snd (dispatch_submit request_message S)) = async_responses S
       \<and> futures (snd (dispatch_submit request_message S)) = futures S
       \<and> dispatch loop n_tasks request_message S
           = dispatch_register loop n_tasks request_message
               (snd (dispatch_submit request_message S))
       \<and> workers (snd (dispatch loop n_tasks request_message S))
           = workers (snd (dispatch_submit request_message S))
       \<and> futures (snd (dispatch loop n_tasks request_message S))
           = futures S @ [\<lparr> fut_loop = loop, fut_state = Pending \<rparr>]
       \<and> async_responses (snd (dispatch loop n_tasks request_message S))
           = (async_responses S)(request_id request_message \<mapsto> length (futures S))
       \<and> (\<forall>c < length (calls S).
            status (calls S ! c) = Waiting
            \<and> fut_state (futures S ! call_async_response (calls S ! c)) \<noteq> Pending \<longrightarrow>
            async_responses (step (Resume c) S) (call_internal_id (calls S ! c)) = None
          \<and> status (calls (step (Resume c) S) ! c) \<noteq> Waiting)
       \<and> (\<forall>i f. async_responses S i = Some f \<longrightarrow>
            (\<exists>c < length (calls S).
               status (calls S ! c) = Waiting
             \<and> call_internal_id (calls S ! c) = i
             \<and> call_async_response (calls S ! c) = f))
       \<and> (\<forall>e. \<forall>g < length (futures S).
            fut_state (futures S ! g) \<noteq> Pending \<longrightarrow>
            futures (step e S) ! g = futures S ! g)"
proof -
  from run_round_robin [OF assms(2,3) init_round_robin]
  have rr: "round_robin_inv ws S" and len: "length (queue_request_count S) = dispatch_count es"
    by (simp_all add: Dispatcher_init_def S_def)
  have inv: "consistent S"
    by (simp add: consistent_run consistent_init S_def)
  note sub = dispatch_submit_round_robin [OF assms(2,3) rr]
  have 1: "fst (dispatch_submit request_message S) = Inr ()"
    by (rule sub(3))
  have 2: "requests (snd (workers (snd (dispatch_submit request_message S)) !
                    (dispatch_count es mod length ws)))
           = requests (snd (workers S ! (dispatch_count es mod length ws))) @ [request_message]"
    using dispatch_submit_requests [OF assms(2,3) rr] by (simp add: len)
  have 3: "async_responses (snd (dispatch_submit request_message S)) = async_responses S"
    and 4: "futures (snd (dispatch_submit request_message S)) = futures S"
    by (simp_all add: dispatch_submit_frame)
  have d: "dispatch loop n_tasks request_message S
      = dispatch_register loop n_tasks request_message (snd (dispatch_submit request_message S))"
    using 1 by (cases "dispatch_submit request_message S") (simp add: dispatch_def)
  have 5: "workers (snd (dispatch loop n_tasks request_message S))
           = workers (snd (dispatch_submit request_message S))"
    by (simp add: d dispatch_register_frame)
  have 6: "futures (snd (dispatch loop n_tasks request_message S))
           = futures S @ [\<lparr> fut_loop = loop, fut_state = Pending \<rparr>]"
    by (simp add: d dispatch_register_effect 4)
  have 7: "async_responses (snd (dispatch loop n_tasks request_message S))
           = (async_responses S)(request_id request_message \<mapsto> length (futures S))"
    by (simp add: d dispatch_register_effect 3 4)
  have 8: "\<forall>c < length (calls S).
            status (calls S ! c) = Waiting
            \<and> fut_state (futures S ! call_async_response (calls S ! c)) \<noteq> Pending \<longrightarrow>
            async_responses (step (Resume c) S) (call_internal_id (calls S ! c)) = None
          \<and> status (calls (step (Resume c) S) ! c) \<noteq> Waiting"
    using resume_removes_entry [of _ S] by simp
  from inv have 9: "\<forall>i f. async_responses S i = Some f \<longrightarrow>
            (\<exists>c < length (calls S). status (calls S ! c) = Waiting
             \<and> call_internal_id (calls S ! c) = i \<and> call_async_response (calls S ! c) = f)"
    unfolding consistent_def by blast
  have 10: "\<forall>e. \<forall>g < length (futures S).
            fut_state (futures S ! g) \<noteq> Pending \<longrightarrow>
            futures (step e S) ! g = futures S ! g"
    using future_write_once [of _ S] by blast
  from 1 2 3 4 d 5 6 7 8 9 10 show ?thesis by blast
qed

theorem pending_operation_lifecycle_witness:
  "async_responses (snd (dispatch 0 1 \<lparr>request_id = ''r1'', request_payload = (0::nat)\<rparr>
       (run [Start, DispatchSubmit \<lparr>request_id = ''r0'', request_payload = (0::nat)\<rparr>, DispatchRegister 5 1 \<lparr>request_id = ''r0'', request_payload = (0::nat)\<rparr>, Put \<lparr>response_id = ''r0'', response_body = Success (42::nat)\<rparr>, LoopTurn 0,
             RunScheduled 5] (Dispatcher_init [(7, \<lparr>requests = []\<rparr>)] \<lparr>items = [], is_closed = False\<rparr>))))
     ''r1'' = Some 1
   \<and> async_responses (step (Resume 0)
       (run [Start, DispatchSubmit \<lparr>request_id = ''r0'', request_payload = (0::nat)\<rparr>, DispatchRegister 5 1 \<lparr>request_id = ''r0'', request_payload = (0::nat)\<rparr>, Put \<lparr>response_id = ''r0'', response_body = Success (42::nat)\<rparr>, LoopTurn 0,
             RunScheduled 5] (Dispatcher_init [(7, \<lparr>requests = []\<rparr>)] \<lparr>items = [], is_closed = False\<rparr>)))
     ''r0'' = None"
  using pending_operation_lifecycle
    [where ws = "[(7, \<lparr>requests = []\<rparr>)]" and q = "\<lparr>items = [], is_closed = False\<rparr>"
       and es = "[Start, DispatchSubmit \<lparr>request_id = ''r0'', request_payload = (0::nat)\<rparr>, DispatchRegister 5 1 \<lparr>request_id = ''r0'', request_payload = (0::nat)\<rparr>, Put \<lparr>response_id = ''r0'', response_body = Success (42::nat)\<rparr>, LoopTurn 0,
             RunScheduled 5]"
       and request_message = "\<lparr>request_id = ''r1'', request_payload = (0::nat)\<rparr>" and loop = 0 and n_tasks = 1]
  by (simp add: eval_defs event_defs)

theorem pending_operation_lifecycle_counterexample:
  "requests (snd (workers (snd (dispatch_submit \<lparr>request_id = ''r0'', request_payload = (0::nat)\<rparr> (Dispatcher_init [(7, \<lparr>requests = []\<rparr>)] \<lparr>items = [], is_closed = False\<rparr>))) ! 0)) = [\<lparr>request_id = ''r0'', request_payload = (0::nat)\<rparr>]
   \<and> async_responses (snd (dispatch_submit \<lparr>request_id = ''r0'', request_payload = (0::nat)\<rparr> (Dispatcher_init [(7, \<lparr>requests = []\<rparr>)] \<lparr>items = [], is_closed = False\<rparr>))) ''r0'' = None
   \<and> futures (snd (dispatch_submit \<lparr>request_id = ''r0'', request_payload = (0::nat)\<rparr> (Dispatcher_init [(7, \<lparr>requests = []\<rparr>)] \<lparr>items = [], is_closed = False\<rparr>))) = []
   \<and> tasks (run [Start, DispatchSubmit \<lparr>request_id = ''r0'', request_payload = (0::nat)\<rparr>, Put \<lparr>response_id = ''r0'', response_body = Success (42::nat)\<rparr>, LoopTurn 0] (Dispatcher_init [(7, \<lparr>requests = []\<rparr>)] \<lparr>items = [], is_closed = False\<rparr>))
     = [Done (Crashed (KeyError (StrKey ''r0'')))]"
  by (simp add: eval_defs event_defs)





end
